theory Spec2Isabelle
  imports Main "HOL-Library.Multiset"
begin

chapter \<open>The remark plugins of the documentation site\<close>

text \<open>
  A shallow embedding of \<open>src/remark-section-transform.mjs\<close> (headings become section
  components, and a nested table of contents is collected on the way) and of the meta
  parser of \<open>src/remark-code-transform.mjs\<close>, followed by the properties proved of them.

  What the source mutates in place is passed and returned: the array of children under
  traversal, the ToC accumulator and the console (\<open>effects\<close>), the metadata of the file.
  An exception is the \<open>Inl\<close> of a sum. The libraries the plugins call (unist-util-visit,
  unist-util-find-after, lodash) are not part of the repository; what the plugins use of
  them is modelled next to its use.
\<close>

section \<open>Strings\<close>

text \<open>
  A JavaScript string is modelled as a \<open>string\<close> (a list of 8-bit characters), each
  character read as the code unit of the same number (U+0000 to U+00FF). Within that
  range the regular-expression class \<open>\s\<close> and \<open>String.prototype.trim\<close> know the same
  seven white-space characters (TAB, LF, VT, FF, CR, SPACE, NBSP); the line terminators,
  which \<open>.\<close> does not match, are LF and CR; \<open>\w\<close> is \<open>[A-Za-z0-9_]\<close>.
\<close>

definition is_space :: "char \<Rightarrow> bool" where
  "is_space c = (c \<in> set [CHR 0x09, CHR 0x0A, CHR 0x0B, CHR 0x0C, CHR 0x0D, CHR 0x20, CHR 0xA0])"

definition is_line_terminator :: "char \<Rightarrow> bool" where
  "is_line_terminator c = (c = CHR 0x0A \<or> c = CHR 0x0D)"

definition is_upper :: "char \<Rightarrow> bool" where
  "is_upper c = (c \<in> set ''ABCDEFGHIJKLMNOPQRSTUVWXYZ'')"

definition is_lower :: "char \<Rightarrow> bool" where
  "is_lower c = (c \<in> set ''abcdefghijklmnopqrstuvwxyz'')"

definition is_digit :: "char \<Rightarrow> bool" where
  "is_digit c = (c \<in> set ''0123456789'')"

definition is_word_char :: "char \<Rightarrow> bool" where
  "is_word_char c = (is_upper c \<or> is_lower c \<or> is_digit c \<or> c = CHR ''_'')"

text \<open>\<open>String.prototype.trimEnd\<close> and \<open>String.prototype.trim\<close>.\<close>

definition trimEnd :: "string \<Rightarrow> string" where
  "trimEnd s = rev (dropWhile is_space (rev s))"

definition trim :: "string \<Rightarrow> string" where
  "trim s = trimEnd (dropWhile is_space s)"

section \<open>The Text/ID parser\<close>

text \<open>
  Modelled from the spec: \<open>_.kebabCase\<close> belongs to lodash, a library outside this
  repository. \<open>parseTextWithId\<close> below takes the slug function as a parameter; the
  definition here follows the words of the specification (\<open>lowercase words joined by
  single hyphens, non-alphanumeric separators collapsed\<close>) and serves where a concrete
  slug is evaluated.
\<close>

definition is_alnum :: "char \<Rightarrow> bool" where
  "is_alnum c = (is_upper c \<or> is_lower c \<or> is_digit c)"

definition to_lower :: "char \<Rightarrow> char" where
  "to_lower c = (case map_of (zip ''ABCDEFGHIJKLMNOPQRSTUVWXYZ'' ''abcdefghijklmnopqrstuvwxyz'') c of
                   Some l \<Rightarrow> l | None \<Rightarrow> c)"

fun alnum_words :: "string \<Rightarrow> string \<Rightarrow> string list" where
  "alnum_words w [] = (if w = [] then [] else [w])"
| "alnum_words w (c # cs) =
     (if is_alnum c then alnum_words (w @ [c]) cs
      else (if w = [] then [] else [w]) @ alnum_words [] cs)"

fun join_hyphen :: "string list \<Rightarrow> string" where
  "join_hyphen [] = []"
| "join_hyphen [w] = w"
| "join_hyphen (w # ws) = w @ ''-'' @ join_hyphen ws"

definition kebabCase :: "string \<Rightarrow> string" where
  "kebabCase s = join_hyphen (map (map to_lower) (alnum_words [] s))"

text \<open>
  \<open>text.match(/^(.+?)\s*\(#([^)]+)\)$/)\<close>, as the backtracking matcher runs it.

  \<open>id_suffix\<close> matches \<open>\s*\(#([^)]+)\)$\<close> against the rest of the string once group 1
  is fixed and returns group 2. \<open>\s*\<close> is greedy and the next character has to be
  \<open>(\<close>, which is not white space, so only the longest run of white space can succeed;
  \<open>[^)]+\<close> is greedy and has to be followed by \<open>)\<close>, so only the longest run of
  characters other than \<open>)\<close> can succeed, and \<open>$\<close> (no \<open>m\<close> flag) asks for that
  \<open>)\<close> to end the input.

  \<open>lazy_title\<close> is the lazy group \<open>(.+?)\<close> anchored by \<open>^\<close>: it takes one more
  character at a time (never a line terminator), and tries the rest of the pattern after
  each; \<open>g\<close> is what group 1 holds so far.
\<close>

definition id_suffix :: "string \<Rightarrow> string option" where
  "id_suffix s =
     (case dropWhile is_space s of
        a # b # r \<Rightarrow>
          (if a = CHR ''('' \<and> b = CHR ''#'' then
             (let lit = takeWhile (\<lambda>c. c \<noteq> CHR '')'') r in
              if lit \<noteq> [] \<and> dropWhile (\<lambda>c. c \<noteq> CHR '')'') r = '')'' then Some lit else None)
           else None)
      | _ \<Rightarrow> None)"

fun lazy_title :: "string \<Rightarrow> string \<Rightarrow> (string \<times> string) option" where
  "lazy_title g [] = None"
| "lazy_title g (c # cs) =
     (if is_line_terminator c then None
      else (case id_suffix cs of
              Some lit \<Rightarrow> Some (g @ [c], lit)
            | None \<Rightarrow> lazy_title (g @ [c]) cs))"

record parsed =
  title :: string
  id' :: string

definition parseTextWithId :: "(string \<Rightarrow> string) \<Rightarrow> string \<Rightarrow> parsed" where
  "parseTextWithId kebab str =
     (case lazy_title [] str of
        Some (m1, m2) \<Rightarrow> \<lparr>title = trim m1, id' = m2\<rparr>
      | None \<Rightarrow> \<lparr>title = str, id' = kebab str\<rparr>)"

section \<open>The document tree\<close>

text \<open>
  A syntax-tree node is an object with a \<open>type\<close> tag and, depending on the type, a
  \<open>depth\<close> (headings), a \<open>value\<close> (text and code), \<open>lang\<close> and \<open>meta\<close> (code), a
  \<open>name\<close> and \<open>attributes\<close> (JSX elements) and \<open>children\<close>. One constructor carries
  all of them. A string property that is absent holds the empty string, which is what
  every read of it in the source makes of \<open>undefined\<close> (\<open>node.value || ''\<close>,
  \<open>join('')\<close>); absent \<open>children\<close> are the empty list, a walk over which does
  nothing. The depth of a heading is an integer.

  The tree has no shared nodes, so the identity of a node is its position: where the
  source looks a node up by identity (\<open>parent.children.indexOf\<close>), the model uses the
  index at which the node stands.
\<close>

datatype attribute_value = StringValue string | ExpressionValue string

datatype mdx_attribute = MdxJsxAttribute (attr_name: string) (attr_value: attribute_value)

datatype node =
  Node (ntype: string) (ndepth: int) (nvalue: string) (nlang: string) (nmeta: string)
       (nname: string) (nattributes: "mdx_attribute list") (children: "node list")

fun set_children :: "node \<Rightarrow> node list \<Rightarrow> node" where
  "set_children (Node ty d v l m n a _) cs = Node ty d v l m n a cs"

record section_record = parsed +
  depth :: int

record effects =
  toc :: "section_record list"
  console :: "string list"

datatype error =
    ExpectedParentNode
  | UnexpectedDepth int
  | NoDepth1Heading
  | ManyDepth1Headings nat
  | TypeError

section \<open>The sectionizer\<close>

text \<open>\<open>getComponentNameForDepth\<close>: the lookup in \<open>componentMap\<close>; a depth that is not a
  key of the map throws.\<close>

definition componentMap :: "int \<rightharpoonup> string" where
  "componentMap = [1 \<mapsto> ''Section'', 2 \<mapsto> ''SubSection'', 3 \<mapsto> ''SubSubSection'',
                   4 \<mapsto> ''SubSubSubSection'']"

definition getComponentNameForDepth :: "int \<Rightarrow> error + string" where
  "getComponentNameForDepth d =
     (case componentMap d of None \<Rightarrow> Inl (UnexpectedDepth d) | Some n \<Rightarrow> Inr n)"

definition extractTextFromHeading :: "node \<Rightarrow> string" where
  "extractTextFromHeading headingNode =
     concat (map nvalue (filter (\<lambda>child. ntype child = ''text'') (children headingNode)))"

definition isEnd :: "node \<Rightarrow> bool" where
  "isEnd n = (ntype n = ''heading'' \<or> ntype n = ''export'')"

text \<open>
  \<open>findAfter(parent, start, isEnd)\<close> of unist-util-find-after, followed by
  \<open>parent.children.indexOf(end)\<close>: the loop \<open>while (++index < parent.children.length)\<close>
  returns the first later sibling that passes the test; the model returns its index.
\<close>

function findAfter :: "node list \<Rightarrow> nat \<Rightarrow> (node \<Rightarrow> bool) \<Rightarrow> nat option" where
  "findAfter cs index test =
     (if index + 1 < length cs then
        (if test (cs ! (index + 1)) then Some (index + 1) else findAfter cs (index + 1) test)
      else None)"
  by pat_completeness auto
termination
  by (relation "measure (\<lambda>(cs, index, test). length cs - index)") auto

declare findAfter.simps [simp del]

text \<open>\<open>Array.prototype.slice(start, end)\<close> with \<open>end\<close> possibly \<open>undefined\<close>, and
  \<open>Array.prototype.splice(start, deleteCount, item)\<close>, for indices inside the array.\<close>

definition slice :: "'a list \<Rightarrow> nat \<Rightarrow> nat option \<Rightarrow> 'a list" where
  "slice xs start end_opt =
     (case end_opt of None \<Rightarrow> drop start xs | Some e \<Rightarrow> take (e - start) (drop start xs))"

definition splice :: "'a list \<Rightarrow> nat \<Rightarrow> nat \<Rightarrow> 'a \<Rightarrow> 'a list" where
  "splice xs start deleteCount item = take start xs @ [item] @ drop (start + deleteCount) xs"

definition warning_message :: "string \<Rightarrow> string \<Rightarrow> string" where
  "warning_message t i =
     ''\<newline>WARNING:'' @ ''Section with title\<newline>'' @ ('' '' @ t @ ''\<newline>'') @
     ''will be given the generic id\<newline>'' @ '' page_title\<newline>'' @
     ''instead of the custom id\<newline>'' @ ('' '' @ i @ ''.\<newline>'')"

text \<open>
  \<open>sectionizeToComponent(node, index, parent, toc)\<close>. \<open>siblings\<close> is \<open>parent.children\<close>;
  the function returns the array after the splice and the effects: the record pushed on
  \<open>toc\<close> and the line written by \<open>console.warn\<close>. The warning comes before
  \<open>getComponentNameForDepth\<close> can throw, but only a heading of depth 1 warns and depth 1
  never throws.
\<close>

definition sectionizeToComponent ::
  "(string \<Rightarrow> string) \<Rightarrow> node \<Rightarrow> nat \<Rightarrow> node list \<Rightarrow> effects \<Rightarrow> error + (node list \<times> effects)" where
  "sectionizeToComponent kebab node index siblings eff =
     (let start = node;
          startIndex = index;
          d = ndepth start;
          end_found = findAfter siblings startIndex isEnd;
          endIndex = (case end_found of Some j \<Rightarrow> int j | None \<Rightarrow> - 1);
          between = slice siblings startIndex (if endIndex > 0 then Some (nat endIndex) else None);
          p = parseTextWithId kebab (trimEnd (extractTextFromHeading start));
          eff1 = (if d = 1
                  then eff\<lparr>console := console eff @ [warning_message (title p) (id' p)]\<rparr>
                  else eff);
          contentWithoutHeading = drop 1 between
      in case getComponentNameForDepth d of
           Inl e \<Rightarrow> Inl e
         | Inr componentName \<Rightarrow>
             (let sectionComponent =
                    Node ''mdxJsxFlowElement'' 0 [] [] [] componentName
                      [MdxJsxAttribute ''title'' (StringValue (title p)),
                       MdxJsxAttribute ''id'' (StringValue (id' p))]
                      contentWithoutHeading
              in Inr (splice siblings startIndex (length between) sectionComponent,
                      eff1\<lparr>toc := toc eff1 @ [\<lparr>title = title p, id' = id' p, depth = d\<rparr>]\<rparr>)))"

section \<open>The traversal\<close>

text \<open>
  \<open>visit(tree, test, visitor)\<close> of unist-util-visit walks the tree in pre-order. For a
  node that passes the test it calls the visitor, then walks the children of that node,
  then goes on with the next index of the parent's \<open>children\<close> array, which it reads
  anew at every step. \<open>visit_children\<close> is that loop over one array, \<open>offset\<close> its index.

  When the child is a heading the visitor has spliced the array: the heading object is
  no longer in the tree, so what the walk over its children does to them is dropped, and
  only the effects are kept. Otherwise the walk over the child's children changes the
  child in place.

  The root has no parent: the visitor then calls \<open>findAfter(undefined, ...)\<close>, which
  throws.
\<close>

definition is_section_heading :: "node \<Rightarrow> bool" where
  "is_section_heading n = (ntype n = ''heading'' \<and> ndepth n \<ge> 1 \<and> ndepth n \<le> 4)"

lemma size_list_drop_le: "size_list f (drop n xs) \<le> size_list f xs"
  by (induction xs arbitrary: n) (auto simp: drop_Cons split: nat.splits intro: le_SucI trans_le_add2)

lemma size_list_drop_Suc: "n < length xs \<Longrightarrow> size_list f (drop (Suc n) xs) < size_list f (drop n xs)"
  by (simp flip: Cons_nth_drop_Suc)

lemma size_list_children: "size_list size (children c) < size c"
  by (cases c) simp

lemma size_list_nth_children: "n < length xs \<Longrightarrow> size_list size (children (xs ! n)) < size_list size (drop n xs)"
  using size_list_children [of "xs ! n"] by (simp flip: Cons_nth_drop_Suc)

lemma findAfter_bounds: "findAfter cs i t = Some j \<Longrightarrow> i < j \<and> j < length cs"
  by (induction cs i t rule: findAfter.induct) (subst (asm) findAfter.simps, auto split: if_splits)

lemma sectionize_drop:
  assumes "sectionizeToComponent kebab node index siblings eff = Inr (siblings1, eff1)"
    and "index < length siblings"
  shows "\<exists>k. drop (Suc index) siblings1 = drop (Suc index + k) siblings"
proof (cases "findAfter siblings index isEnd")
  case None
  with assms show ?thesis
    by (intro exI [of _ "length siblings"])
       (auto simp: sectionizeToComponent_def Let_def slice_def splice_def split: sum.splits)
next
  case (Some j)
  with findAfter_bounds [OF Some] assms show ?thesis
    by (intro exI [of _ "j - Suc index"])
       (auto simp: sectionizeToComponent_def Let_def slice_def splice_def min_def split: sum.splits)
qed

lemma sectionize_measure:
  assumes "sectionizeToComponent kebab node index siblings eff = Inr (siblings1, eff1)"
    and "index < length siblings"
  shows "size_list size (drop (Suc index) siblings1) < size_list size (drop index siblings)"
proof -
  from sectionize_drop [OF assms]
  obtain k where "drop (Suc index) siblings1 = drop (Suc index + k) siblings" by auto
  moreover have "size_list size (drop (Suc index + k) siblings) \<le> size_list size (drop (Suc index) siblings)"
    using size_list_drop_le [of size k "drop (Suc index) siblings"] by (simp add: add.commute)
  ultimately show ?thesis using size_list_drop_Suc [OF assms(2), of size] by simp
qed

function visit_children ::
  "(string \<Rightarrow> string) \<Rightarrow> node list \<Rightarrow> nat \<Rightarrow> effects \<Rightarrow> error + (node list \<times> effects)" where
  "visit_children kebab siblings offset eff =
     (if offset < length siblings then
        (let child = siblings ! offset in
         if is_section_heading child then
           (case sectionizeToComponent kebab child offset siblings eff of
              Inl e \<Rightarrow> Inl e
            | Inr (siblings1, eff1) \<Rightarrow>
                (case visit_children kebab (children child) 0 eff1 of
                   Inl e \<Rightarrow> Inl e
                 | Inr (_, eff2) \<Rightarrow> visit_children kebab siblings1 (offset + 1) eff2))
         else
           (case visit_children kebab (children child) 0 eff of
              Inl e \<Rightarrow> Inl e
            | Inr (grandchildren, eff1) \<Rightarrow>
                visit_children kebab (siblings[offset := set_children child grandchildren])
                  (offset + 1) eff1))
      else Inr (siblings, eff))"
  by pat_completeness auto
termination
  apply (relation "measure (\<lambda>(kebab, siblings, offset, eff). size_list size (drop offset siblings))")
      apply simp
     apply (simp add: size_list_nth_children)
    apply (clarsimp, erule sectionize_measure, assumption)
   apply (simp add: size_list_nth_children)
  apply (simp add: size_list_drop_Suc)
  done

declare visit_children.simps [simp del]

definition visit :: "(string \<Rightarrow> string) \<Rightarrow> node \<Rightarrow> effects \<Rightarrow> error + (node \<times> effects)" where
  "visit kebab tree eff =
     (if is_section_heading tree then Inl ExpectedParentNode
      else (case visit_children kebab (children tree) 0 eff of
              Inl e \<Rightarrow> Inl e
            | Inr (cs, eff1) \<Rightarrow> Inr (set_children tree cs, eff1)))"

section \<open>The ToC nester\<close>

text \<open>
  \<open>nestHeadings\<close> builds its result by mutating objects that are shared between the
  \<open>parents\<close> map, the \<open>children\<close> arrays and \<open>nestedHeadings\<close>, so the model keeps an
  explicit store: a \<open>toc_cell\<close> is the object \<open>{ ...heading, children: [] }\<close>, its
  \<open>children\<close> array holding the addresses of other cells; the store is the list of the
  cells in the order of their creation, and the address of a cell is its index there.
\<close>

record toc_cell =
  cell_heading :: section_record
  cell_children :: "nat list"

record nest_state =
  store :: "toc_cell list"
  parents :: "int \<rightharpoonup> nat"
  nestedHeadings :: "nat list"

text \<open>The loop \<open>for (let d = heading.depth - 1; d >= 1; d--)\<close> over the \<open>parents\<close> map.\<close>

function find_parent :: "(int \<rightharpoonup> nat) \<Rightarrow> int \<Rightarrow> nat option" where
  "find_parent ps d =
     (if d \<ge> 1 then (case ps d of Some p \<Rightarrow> Some p | None \<Rightarrow> find_parent ps (d - 1))
      else None)"
  by pat_completeness auto
termination
  by (relation "measure (\<lambda>(ps, d). nat d)") auto

declare find_parent.simps [simp del]

text \<open>The body of the loop \<open>for (const heading of filteredHeadings)\<close>.\<close>

definition nest_step :: "nest_state \<Rightarrow> section_record \<Rightarrow> nest_state" where
  "nest_step s heading =
     (let nested = length (store s);
          store1 = store s @ [\<lparr>cell_heading = heading, cell_children = []\<rparr>];
          parents1 = (parents s)(depth heading \<mapsto> nested)
      in case find_parent parents1 (depth heading - 1) of
           Some parent \<Rightarrow>
             s\<lparr>store := store1[parent := (store1 ! parent)
                          \<lparr>cell_children := cell_children (store1 ! parent) @ [nested]\<rparr>],
               parents := parents1\<rparr>
         | None \<Rightarrow>
             s\<lparr>store := store1, parents := parents1,
               nestedHeadings := nestedHeadings s @ [nested]\<rparr>)"

text \<open>
  The value the caller receives is the object graph under \<open>nestedHeadings\<close>; \<open>reify\<close>
  reads it off the store as a tree. A cell only ever holds addresses of cells created
  after it (a child is pushed on a cell that exists already), which is what lets the
  reading terminate; the guard in \<open>reify\<close> says so and, on the stores the loop
  builds, removes nothing.
\<close>

datatype toc_node = TocNode (node_heading: section_record) (node_children: "toc_node list")

function reify :: "toc_cell list \<Rightarrow> nat \<Rightarrow> toc_node" where
  "reify st a =
     TocNode (cell_heading (st ! a))
       (map (reify st) (filter (\<lambda>k. a < k \<and> k < length st) (cell_children (st ! a))))"
  by pat_completeness auto
termination
  by (relation "measure (\<lambda>(st, a). length st - a)") auto

declare reify.simps [simp del]

text \<open>\<open>nestHeadings(flatHeadings)\<close>; \<open>None\<close> is an absent argument (\<open>undefined\<close> or
  \<open>null\<close>), which \<open>!flatHeadings?.length\<close> treats as the empty array.\<close>

definition nestHeadings :: "section_record list option \<Rightarrow> error + toc_node list" where
  "nestHeadings flatHeadings =
     (case flatHeadings of
        None \<Rightarrow> Inr []
      | Some flat \<Rightarrow>
          if length flat = 0 then Inr []
          else
            (let depth1Headings = filter (\<lambda>h. depth h = 1) flat in
             if length depth1Headings = 0 then Inl NoDepth1Heading
             else if length depth1Headings > 1 then Inl (ManyDepth1Headings (length depth1Headings))
             else
               (let filteredHeadings = filter (\<lambda>h. depth h \<noteq> 1) flat;
                    s = foldl nest_step \<lparr>store = [], parents = Map.empty, nestedHeadings = []\<rparr>
                          filteredHeadings
                in Inr (map (reify (store s)) (nestedHeadings s)))))"

section \<open>The transform entry point\<close>

text \<open>
  \<open>file.data\<close> is an object with an optional \<open>astro\<close> object, which has an optional
  \<open>frontmatter\<close> object; each may hold other properties, of values \<open>'v\<close> this code never
  looks at. \<open>None\<close> is a property that is absent (or falsy). The front matter is a map
  from property names to values, one of which may be the table of contents.

  The transform mutates the tree and the file in place and may then throw, so the result
  carries the tree and the file as they are when it returns or throws, what was written
  to the console, and the error thrown, if any.
\<close>

datatype 'v frontmatter_value = TocValue "toc_node list" | OtherValue 'v

record 'v astro_data =
  frontmatter :: "(string \<rightharpoonup> 'v frontmatter_value) option"
  astro_other :: "string \<rightharpoonup> 'v"

record 'v file_data =
  astro :: "'v astro_data option"
  data_other :: "string \<rightharpoonup> 'v"

record 'v vfile =
  data :: "'v file_data"

record 'v outcome =
  out_tree :: node
  out_file :: "'v vfile"
  out_console :: "string list"
  thrown :: "error option"

definition ensure_astro :: "'v vfile \<Rightarrow> 'v vfile" where
  "ensure_astro file =
     (case astro (data file) of
        None \<Rightarrow> file\<lparr>data := (data file)\<lparr>astro := Some \<lparr>frontmatter = None, astro_other = Map.empty\<rparr>\<rparr>\<rparr>
      | Some _ \<Rightarrow> file)"

definition ensure_frontmatter :: "'v vfile \<Rightarrow> 'v vfile" where
  "ensure_frontmatter file =
     (case astro (data file) of
        None \<Rightarrow> file
      | Some a \<Rightarrow>
          (case frontmatter a of
             None \<Rightarrow> file\<lparr>data := (data file)\<lparr>astro := Some (a\<lparr>frontmatter := Some Map.empty\<rparr>)\<rparr>\<rparr>
           | Some _ \<Rightarrow> file))"

definition set_toc :: "'v vfile \<Rightarrow> toc_node list \<Rightarrow> 'v vfile" where
  "set_toc file nested =
     (case astro (data file) of
        None \<Rightarrow> file
      | Some a \<Rightarrow>
          (case frontmatter a of
             None \<Rightarrow> file
           | Some fm \<Rightarrow>
               file\<lparr>data := (data file)\<lparr>astro := Some (a\<lparr>frontmatter := Some (fm(''toc'' \<mapsto> TocValue nested))\<rparr>)\<rparr>\<rparr>))"

definition remarkSectionTransform ::
  "(string \<Rightarrow> string) \<Rightarrow> node \<Rightarrow> 'v vfile \<Rightarrow> 'v outcome" where
  "remarkSectionTransform kebab tree file =
     (let file1 = ensure_astro file;
          file2 = ensure_frontmatter file1
      in case visit kebab tree \<lparr>toc = [], console = []\<rparr> of
           Inl e \<Rightarrow> \<lparr>out_tree = tree, out_file = file2, out_console = [], thrown = Some e\<rparr>
         | Inr (tree1, eff) \<Rightarrow>
             (case nestHeadings (Some (toc eff)) of
                Inl e \<Rightarrow>
                  \<lparr>out_tree = tree1, out_file = file2, out_console = console eff, thrown = Some e\<rparr>
              | Inr nested \<Rightarrow>
                  \<lparr>out_tree = tree1, out_file = set_toc file2 nested, out_console = console eff,
                   thrown = None\<rparr>))"

section \<open>The code-block transform\<close>

text \<open>
  \<open>/(\w+)=(?:"([^"]*)"|([^\s]+))/\<close> tried at the start of \<open>s\<close>. \<open>\w+\<close> is greedy and
  has to be followed by \<open>=\<close>, which is not a word character, so only the longest run of
  word characters can succeed. The first alternative is the quoted value: the longest run
  of characters other than the double quote (\<open>CHR 0x22\<close>), closed by a double quote. The
  second is the longest non-empty run of characters that are not white space. The result
  is the groups (key, quoted value, unquoted value; a group that took no part is
  \<open>undefined\<close>, here \<open>None\<close>) and what is left of the string after the match.
\<close>

definition quoted_value :: "string \<Rightarrow> (string \<times> string) option" where
  "quoted_value v =
     (case v of
        [] \<Rightarrow> None
      | a # q \<Rightarrow>
          if a = CHR 0x22 then
            (case dropWhile (\<lambda>c. c \<noteq> CHR 0x22) q of
               [] \<Rightarrow> None
             | b # rest \<Rightarrow> Some (takeWhile (\<lambda>c. c \<noteq> CHR 0x22) q, rest))
          else None)"

definition unquoted_value :: "string \<Rightarrow> (string \<times> string) option" where
  "unquoted_value v =
     (let u = takeWhile (\<lambda>c. \<not> is_space c) v
      in if u = [] then None else Some (u, dropWhile (\<lambda>c. \<not> is_space c) v))"

definition match_here ::
  "string \<Rightarrow> (string \<times> string option \<times> string option \<times> string) option" where
  "match_here s =
     (let k = takeWhile is_word_char s in
      if k = [] then None
      else (case dropWhile is_word_char s of
              [] \<Rightarrow> None
            | e # v \<Rightarrow>
                if e \<noteq> CHR ''='' then None
                else (case quoted_value v of
                        Some (q, rest) \<Rightarrow> Some (k, Some q, None, rest)
                      | None \<Rightarrow>
                          (case unquoted_value v of
                             Some (u, rest) \<Rightarrow> Some (k, None, Some u, rest)
                           | None \<Rightarrow> None))))"

lemma quoted_value_shorter: "quoted_value v = Some (q, rest) \<Longrightarrow> length rest < length v"
proof -
  assume a: "quoted_value v = Some (q, rest)"
  then obtain c w b where v: "v = c # w" and d: "dropWhile (\<lambda>c. c \<noteq> CHR 0x22) w = b # rest"
    by (auto simp: quoted_value_def split: list.splits if_splits)
  have "length (dropWhile (\<lambda>c. c \<noteq> CHR 0x22) w) \<le> length w" by (rule length_dropWhile_le)
  with v d show ?thesis by simp
qed

lemma unquoted_value_shorter: "unquoted_value v = Some (u, rest) \<Longrightarrow> length rest \<le> length v"
  by (auto simp: unquoted_value_def Let_def length_dropWhile_le split: if_splits)

lemma match_here_shorter:
  assumes "match_here s = Some (k, q, u, rest)"
  shows "length rest < length s"
proof -
  from assms obtain e v where d: "dropWhile is_word_char s = e # v"
    and r: "(\<exists>q'. quoted_value v = Some (q', rest)) \<or> (\<exists>u'. unquoted_value v = Some (u', rest))"
    by (auto simp: match_here_def Let_def split: list.splits if_splits option.splits)
  from r have "length rest \<le> length v"
    using quoted_value_shorter unquoted_value_shorter by (fastforce simp: less_imp_le)
  moreover have "length (dropWhile is_word_char s) \<le> length s" by (rule length_dropWhile_le)
  ultimately show ?thesis using d by simp
qed

text \<open>
  \<open>meta.match(/.../g)\<close>: the matched substrings from left to right, each search starting
  where the last match ended, and one character further on where the pattern does not
  match.
\<close>

function match_all :: "string \<Rightarrow> string list" where
  "match_all s =
     (if s = [] then []
      else (case match_here s of
              Some (k, q, u, rest) \<Rightarrow> take (length s - length rest) s # match_all rest
            | None \<Rightarrow> match_all (tl s)))"
  by pat_completeness auto
termination
  by (relation "measure length") (auto dest: match_here_shorter)

declare match_all.simps [simp del]

text \<open>\<open>match.match(/.../)\<close> without the \<open>g\<close> flag: the groups of the leftmost match.\<close>

fun match_first :: "string \<Rightarrow> (string \<times> string option \<times> string option) option" where
  "match_first [] = None"
| "match_first (c # cs) =
     (case match_here (c # cs) of
        Some (k, q, u, rest) \<Rightarrow> Some (k, q, u)
      | None \<Rightarrow> match_first cs)"

text \<open>\<open>quotedValue || unquotedValue\<close>: the empty string and \<open>undefined\<close> are falsy.\<close>

definition js_or :: "string option \<Rightarrow> string option \<Rightarrow> string option" where
  "js_or a b = (case a of Some s \<Rightarrow> (if s \<noteq> [] then Some s else b) | None \<Rightarrow> b)"

text \<open>
  The \<open>attributes\<close> object is modelled by its own properties: a key is mapped to the
  value stored under it, which may be \<open>undefined\<close> (\<open>Some None\<close>); \<open>None\<close> is a key of
  which the object has no own property. \<open>attributes[key] = value\<close> on an object made by
  \<open>{}\<close> stores an own property, except for the key \<open>__proto__\<close>: there the assignment
  runs the setter that the object inherits from \<open>Object.prototype\<close>, and the setter
  ignores a value that is neither an object nor \<open>null\<close> (here the value is a string or
  \<open>undefined\<close>), so nothing is stored. Destructuring the result of a match that failed
  would throw.
\<close>

definition set_property ::
  "(string \<rightharpoonup> string option) \<Rightarrow> string \<Rightarrow> string option \<Rightarrow> (string \<rightharpoonup> string option)" where
  "set_property obj key v = (if key = ''__proto__'' then obj else obj(key \<mapsto> v))"

fun store_matches ::
  "(string \<rightharpoonup> string option) \<Rightarrow> string list \<Rightarrow> error + (string \<rightharpoonup> string option)" where
  "store_matches attributes [] = Inr attributes"
| "store_matches attributes (m # ms) =
     (case match_first m of
        None \<Rightarrow> Inl TypeError
      | Some (key, quotedValue, unquotedValue) \<Rightarrow>
          store_matches (set_property attributes key (js_or quotedValue unquotedValue)) ms)"

definition parseMeta :: "string \<Rightarrow> error + (string \<rightharpoonup> string option)" where
  "parseMeta meta =
     (if meta = [] then Inr Map.empty else store_matches Map.empty (match_all meta))"

text \<open>
  The visitor of \<open>remarkCodeTransform\<close>, up to the element it puts in the place of the
  code node. The \<open>code\<close> attribute is an expression whose value is the string \<open>code\<close>
  (\<open>JSON.stringify\<close> writes it as a literal); the \<open>id\<close> attribute is added when
  \<open>meta.id\<close> is truthy. \<open>meta.id\<close> reads the own property \<open>id\<close>; without one the
  read goes to \<open>Object.prototype\<close>, which has no \<open>id\<close>, and gives \<open>undefined\<close>.
\<close>

definition truthy :: "string option option \<Rightarrow> bool" where
  "truthy v = (case v of Some (Some s) \<Rightarrow> s \<noteq> [] | _ \<Rightarrow> False)"

definition codeBoxElement :: "node \<Rightarrow> error + node" where
  "codeBoxElement node =
     (let code = nvalue node;
          language = nlang node
      in case parseMeta (nmeta node) of
           Inl e \<Rightarrow> Inl e
         | Inr meta \<Rightarrow>
             Inr (Node ''mdxJsxFlowElement'' 0 [] [] [] ''CodeBox''
                    ([MdxJsxAttribute ''code'' (ExpressionValue code),
                      MdxJsxAttribute ''language'' (StringValue language)] @
                     (if truthy (meta ''id'')
                      then [MdxJsxAttribute ''id'' (StringValue (the (the (meta ''id''))))]
                      else []))
                    []))"

section \<open>Predicates of the specification\<close>

text \<open>
  \<open>reading str t ws lit\<close>: the string read as title text \<open>t\<close> (not empty), white
  space \<open>ws\<close> and the suffix \<open>(#lit)\<close> at its very end, where \<open>lit\<close> is not empty
  and holds no \<open>)\<close>. \<open>suffix_form str t ws lit\<close> is such a reading whose title text
  holds no line terminator. \<open>has_id_marker p\<close>: the two characters \<open>(#\<close> occur
  somewhere in \<open>p\<close>.
\<close>

definition reading :: "string \<Rightarrow> string \<Rightarrow> string \<Rightarrow> string \<Rightarrow> bool" where
  "reading str t ws lit =
     (str = t @ ws @ ''(#'' @ lit @ '')'' \<and> t \<noteq> [] \<and>
      (\<forall>c\<in>set ws. is_space c) \<and> lit \<noteq> [] \<and> CHR '')'' \<notin> set lit)"

definition suffix_form :: "string \<Rightarrow> string \<Rightarrow> string \<Rightarrow> string \<Rightarrow> bool" where
  "suffix_form str t ws lit =
     (str = t @ ws @ ''(#'' @ lit @ '')'' \<and> t \<noteq> [] \<and> (\<forall>c\<in>set t. \<not> is_line_terminator c) \<and>
      (\<forall>c\<in>set ws. is_space c) \<and> lit \<noteq> [] \<and> CHR '')'' \<notin> set lit)"

fun has_id_marker :: "string \<Rightarrow> bool" where
  "has_id_marker (a # b # r) = ((a = CHR ''('' \<and> b = CHR ''#'') \<or> has_id_marker (b # r))"
| "has_id_marker _ = False"

text \<open>
  What one call of the sectionizer makes of a heading: \<open>section_for\<close> is the structured
  block node for the heading with the given children, \<open>record_for\<close> the record pushed
  on the ToC accumulator, \<open>warnings_for\<close> what goes to the console.
\<close>

definition heading_parsed :: "(string \<Rightarrow> string) \<Rightarrow> node \<Rightarrow> parsed" where
  "heading_parsed kebab h = parseTextWithId kebab (trimEnd (extractTextFromHeading h))"

definition section_for :: "(string \<Rightarrow> string) \<Rightarrow> node \<Rightarrow> node list \<Rightarrow> node" where
  "section_for kebab h content =
     Node ''mdxJsxFlowElement'' 0 [] [] [] (the (componentMap (ndepth h)))
       [MdxJsxAttribute ''title'' (StringValue (title (heading_parsed kebab h))),
        MdxJsxAttribute ''id'' (StringValue (id' (heading_parsed kebab h)))]
       content"

definition record_for :: "(string \<Rightarrow> string) \<Rightarrow> node \<Rightarrow> section_record" where
  "record_for kebab h =
     \<lparr>title = title (heading_parsed kebab h), id' = id' (heading_parsed kebab h), depth = ndepth h\<rparr>"

definition warnings_for :: "(string \<Rightarrow> string) \<Rightarrow> node \<Rightarrow> string list" where
  "warnings_for kebab h =
     (if ndepth h = 1
      then [warning_message (title (heading_parsed kebab h)) (id' (heading_parsed kebab h))]
      else [])"

definition effects_for :: "(string \<Rightarrow> string) \<Rightarrow> node \<Rightarrow> effects \<Rightarrow> effects" where
  "effects_for kebab h eff =
     \<lparr>toc = toc eff @ [record_for kebab h], console = console eff @ warnings_for kebab h\<rparr>"

text \<open>The warning that belongs to a record of depth 1, and the warnings that belong to a
  list of records.\<close>

definition warning_of :: "section_record \<Rightarrow> string" where
  "warning_of r = warning_message (title r) (id' r)"

definition warnings_of :: "section_record list \<Rightarrow> string list" where
  "warnings_of rs = map warning_of (filter (\<lambda>r. depth r = 1) rs)"

section \<open>Nodes of example documents\<close>

definition text_node :: "string \<Rightarrow> node" where
  "text_node s = Node ''text'' 0 s [] [] [] [] []"

definition heading_node :: "int \<Rightarrow> string \<Rightarrow> node" where
  "heading_node d s = Node ''heading'' d [] [] [] [] [] [text_node s]"

definition paragraph_node :: "string \<Rightarrow> node" where
  "paragraph_node s = Node ''paragraph'' 0 [] [] [] [] [] [text_node s]"

definition blockquote_node :: "node list \<Rightarrow> node" where
  "blockquote_node cs = Node ''blockquote'' 0 [] [] [] [] [] cs"

definition root_node :: "node list \<Rightarrow> node" where
  "root_node cs = Node ''root'' 0 [] [] [] [] [] cs"

definition no_effects :: effects where
  "no_effects = \<lparr>toc = [], console = []\<rparr>"

definition example_file :: "nat vfile" where
  "example_file =
     \<lparr>data = \<lparr>astro = Some \<lparr>frontmatter = Some [''title'' \<mapsto> OtherValue 1],
                            astro_other = [''x'' \<mapsto> 2]\<rparr>,
              data_other = [''y'' \<mapsto> 3]\<rparr>\<rparr>"

section \<open>The nesting rule of the specification\<close>

text \<open>
  The rule of the specification for the ToC nester, over the list \<open>fs\<close> of the records
  that are left once the record of depth 1 is taken out; a node is named by the index of
  its record. \<open>shallower fs j\<close> are the earlier records of a depth strictly less than
  that of record \<open>j\<close>. \<open>spec_parent fs j\<close> is the parent of node \<open>j\<close>: the most recent of
  the earlier nodes at the greatest depth found among \<open>shallower fs j\<close>, or none (a
  top-level root) when there is no such node. \<open>spec_tree fs a\<close> is node \<open>a\<close> with the
  nodes whose parent it is as its children, in the order of their records, and
  \<open>spec_forest fs\<close> the roots. \<open>toc_records\<close> lists the records of a ToC node and of
  everything below it.
\<close>

definition shallower :: "section_record list \<Rightarrow> nat \<Rightarrow> nat list" where
  "shallower fs j = filter (\<lambda>i. depth (fs ! i) < depth (fs ! j)) [0..<j]"

definition spec_parent :: "section_record list \<Rightarrow> nat \<Rightarrow> nat option" where
  "spec_parent fs j =
     (if shallower fs j = [] then None
      else Some (last (filter (\<lambda>i. depth (fs ! i) = Max (set (map (\<lambda>i. depth (fs ! i)) (shallower fs j))))
                         (shallower fs j))))"

function spec_tree :: "section_record list \<Rightarrow> nat \<Rightarrow> toc_node" where
  "spec_tree fs a =
     TocNode (fs ! a) (map (spec_tree fs) (filter (\<lambda>j. spec_parent fs j = Some a) [Suc a..<length fs]))"
  by pat_completeness auto
termination
  by (relation "measure (\<lambda>(fs, a). length fs - a)") auto

declare spec_tree.simps [simp del]

definition spec_forest :: "section_record list \<Rightarrow> toc_node list" where
  "spec_forest fs = map (spec_tree fs) (filter (\<lambda>j. spec_parent fs j = None) [0..<length fs])"

fun toc_records :: "toc_node \<Rightarrow> section_record list" where
  "toc_records (TocNode h cs) = h # concat (map toc_records cs)"

text \<open>\<open>last_at fs k d\<close>: the most recent of the first \<open>k\<close> records that has depth \<open>d\<close>.\<close>

definition last_at :: "section_record list \<Rightarrow> nat \<Rightarrow> int \<Rightarrow> nat option" where
  "last_at fs k d =
     (if filter (\<lambda>i. depth (fs ! i) = d) [0..<k] = [] then None
      else Some (last (filter (\<lambda>i. depth (fs ! i) = d) [0..<k])))"

text \<open>
  What holds of the state of the nester after the first \<open>k\<close> records: cell \<open>i\<close> is
  the cell of record \<open>i\<close>, the parents map tracks the most recent node of every depth,
  and the children arrays and the roots follow \<open>spec_parent\<close>.
\<close>

definition nest_inv :: "section_record list \<Rightarrow> nat \<Rightarrow> nest_state \<Rightarrow> bool" where
  "nest_inv fs k s =
     (length (store s) = k \<and>
      (\<forall>i<k. cell_heading (store s ! i) = fs ! i) \<and>
      (\<forall>d. parents s d = last_at fs k d) \<and>
      (\<forall>p<k. cell_children (store s ! p) = filter (\<lambda>j. spec_parent fs j = Some p) [0..<k]) \<and>
      nestedHeadings s = filter (\<lambda>j. spec_parent fs j = None) [0..<k])"

section \<open>Headings and structured block nodes of a tree\<close>

text \<open>
  \<open>headings\<close> and \<open>blocks\<close> list the heading nodes and the structured block nodes
  (\<open>mdxJsxFlowElement\<close>) of a tree in document order (pre-order); \<open>kept_blocks\<close> lists
  the structured block nodes that are not inside a heading (what is inside a heading
  goes with the heading, of which only the text is kept). \<open>block_label\<close> is what
  identifies a block apart from its content: its name and its attributes. \<open>outline\<close>
  lists, in document order, the labels of the blocks a document is to show once every
  heading has become a block: the label of the section block for a heading, and the
  label of a block that is there already.
\<close>

fun headings :: "node \<Rightarrow> node list" where
  "headings (Node ty d v l m n a cs) =
     (if ty = ''heading'' then [Node ty d v l m n a cs] else []) @ concat (map headings cs)"

fun blocks :: "node \<Rightarrow> node list" where
  "blocks (Node ty d v l m n a cs) =
     (if ty = ''mdxJsxFlowElement'' then [Node ty d v l m n a cs] else []) @ concat (map blocks cs)"

fun kept_blocks :: "node \<Rightarrow> node list" where
  "kept_blocks (Node ty d v l m n a cs) =
     (if ty = ''heading'' then []
      else (if ty = ''mdxJsxFlowElement'' then [Node ty d v l m n a cs] else []) @
           concat (map kept_blocks cs))"

definition block_label :: "node \<Rightarrow> string \<times> mdx_attribute list" where
  "block_label b = (nname b, nattributes b)"

fun outline :: "(string \<Rightarrow> string) \<Rightarrow> node \<Rightarrow> (string \<times> mdx_attribute list) list" where
  "outline kebab (Node ty d v l m n a cs) =
     (if ty = ''heading'' then [block_label (section_for kebab (Node ty d v l m n a cs) [])]
      else (if ty = ''mdxJsxFlowElement'' then [(n, a)] else []) @ concat (map (outline kebab) cs))"

text \<open>
  \<open>sections_flat in_section siblings\<close>: no heading of these siblings or below them lies
  where the traversal does not come, that is inside another heading or inside a sibling
  that a heading absorbs (one that follows a heading with no heading or export node in
  between; \<open>in_section\<close> says that the siblings follow such a heading).
\<close>

fun sections_flat :: "bool \<Rightarrow> node list \<Rightarrow> bool" where
  "sections_flat in_section [] = True"
| "sections_flat in_section (Node ty d v l m n a cs # rest) =
     (if ty = ''heading'' then
        (\<forall>c\<in>set cs. headings c = []) \<and> sections_flat True rest
      else if ty = ''export'' then sections_flat False cs \<and> sections_flat False rest
      else if in_section then headings (Node ty d v l m n a cs) = [] \<and> sections_flat True rest
      else sections_flat False cs \<and> sections_flat False rest)"

text \<open>\<open>transformed kebab xs ys\<close>: the nodes \<open>ys\<close> show the blocks that \<open>outline\<close> asks
  for the nodes \<open>xs\<close>, in the same order, and hold no heading any more.\<close>

definition transformed :: "(string \<Rightarrow> string) \<Rightarrow> node list \<Rightarrow> node list \<Rightarrow> bool" where
  "transformed kebab xs ys =
     (map block_label (concat (map blocks ys)) = concat (map (outline kebab) xs) \<and>
      concat (map headings ys) = [])"

section \<open>Meta strings\<close>

text \<open>
  A meta string written as items separated by white space: an item is an entry
  \<open>key="value"\<close> (quoted, the value without a double quote) or \<open>key=value\<close> (unquoted,
  the value not empty, without white space and not starting with a double quote), the
  key a non-empty run of word characters, or some other word, one without \<open>=\<close>
  (\<open>{1,3}\<close>, \<open>showLineNumbers\<close>). Every item comes with the white space that follows
  it, which may be empty after the last item only; \<open>lead\<close> is white space before the
  first item.
\<close>

datatype meta_value = Quoted string | Unquoted string

datatype meta_item = Entry string meta_value | Other string

fun render_value :: "meta_value \<Rightarrow> string" where
  "render_value (Quoted q) = CHR 0x22 # q @ [CHR 0x22]"
| "render_value (Unquoted u) = u"

definition render_entry :: "string \<times> meta_value \<Rightarrow> string" where
  "render_entry e = fst e @ CHR ''='' # render_value (snd e)"

fun render_item :: "meta_item \<Rightarrow> string" where
  "render_item (Entry k v) = render_entry (k, v)"
| "render_item (Other w) = w"

fun render_items :: "(meta_item \<times> string) list \<Rightarrow> string" where
  "render_items [] = []"
| "render_items ((it, ws) # rest) = render_item it @ ws @ render_items rest"

definition render_meta :: "string \<Rightarrow> (meta_item \<times> string) list \<Rightarrow> string" where
  "render_meta lead items = lead @ render_items items"

fun value_ok :: "meta_value \<Rightarrow> bool" where
  "value_ok (Quoted q) = (CHR 0x22 \<notin> set q)"
| "value_ok (Unquoted u) = (u \<noteq> [] \<and> hd u \<noteq> CHR 0x22 \<and> (\<forall>c\<in>set u. \<not> is_space c))"

fun item_ok :: "meta_item \<Rightarrow> bool" where
  "item_ok (Entry k v) = (k \<noteq> [] \<and> (\<forall>c\<in>set k. is_word_char c) \<and> value_ok v)"
| "item_ok (Other w) = (CHR ''='' \<notin> set w)"

fun well_formed :: "(meta_item \<times> string) list \<Rightarrow> bool" where
  "well_formed [] = True"
| "well_formed ((it, ws) # rest) =
     (item_ok it \<and> (\<forall>c\<in>set ws. is_space c) \<and> (rest \<noteq> [] \<longrightarrow> ws \<noteq> []) \<and> well_formed rest)"

text \<open>
  \<open>entries_of\<close>: the entries among the items, in their order. \<open>quoted_group\<close> and
  \<open>unquoted_group\<close>: the value of an entry as the second and third group of the
  pattern (the group of the alternative not taken is \<open>undefined\<close>). \<open>stored_value\<close>: what an
  entry leaves under its key, \<open>undefined\<close> (\<open>None\<close>) for a quoted empty string.
  \<open>meta_lookup es\<close>: the object that the entries \<open>es\<close> describe; the last entry for a key
  decides, and nothing is ever stored under \<open>__proto__\<close>. \<open>id_attribute obj\<close>: the
  \<open>id\<close> attribute that goes with the object, if any.
\<close>

fun entries_of :: "(meta_item \<times> string) list \<Rightarrow> (string \<times> meta_value) list" where
  "entries_of [] = []"
| "entries_of ((Entry k v, ws) # rest) = (k, v) # entries_of rest"
| "entries_of ((Other w, ws) # rest) = entries_of rest"

fun quoted_group :: "meta_value \<Rightarrow> string option" where
  "quoted_group (Quoted q) = Some q"
| "quoted_group (Unquoted u) = None"

fun unquoted_group :: "meta_value \<Rightarrow> string option" where
  "unquoted_group (Quoted q) = None"
| "unquoted_group (Unquoted u) = Some u"

fun stored_value :: "meta_value \<Rightarrow> string option" where
  "stored_value (Quoted q) = (if q = [] then None else Some q)"
| "stored_value (Unquoted u) = Some u"

definition meta_lookup :: "(string \<times> meta_value) list \<Rightarrow> (string \<rightharpoonup> string option)" where
  "meta_lookup es k =
     (if k = ''__proto__'' then None else map_option stored_value (map_of (rev es) k))"

definition id_attribute :: "(string \<rightharpoonup> string option) \<Rightarrow> mdx_attribute list" where
  "id_attribute obj =
     (case obj ''id'' of
        Some (Some s) \<Rightarrow> [MdxJsxAttribute ''id'' (StringValue s)]
      | _ \<Rightarrow> [])"

text \<open>The CodeBox element for a code and a language, with the given further attributes.\<close>

definition code_box :: "string \<Rightarrow> string \<Rightarrow> mdx_attribute list \<Rightarrow> node" where
  "code_box code language further =
     Node ''mdxJsxFlowElement'' 0 [] [] [] ''CodeBox''
       ([MdxJsxAttribute ''code'' (ExpressionValue code),
         MdxJsxAttribute ''language'' (StringValue language)] @ further) []"

text \<open>An example: the items of the meta string
  \<open>{1,3} id=x id=""  showLineNumbers title="My file"\<close>.\<close>

definition example_meta_items :: "(meta_item \<times> string) list" where
  "example_meta_items =
     [(Other ''{1,3}'', '' ''),
      (Entry ''id'' (Unquoted ''x''), '' ''),
      (Entry ''id'' (Quoted []), ''  ''),
      (Other ''showLineNumbers'', '' ''),
      (Entry ''title'' (Quoted ''My file''), [])]"

section \<open>The Text/ID parser: what the pattern matches\<close>

lemma paren_not_space: "\<not> is_space (CHR ''('')"
  by (simp add: is_space_def)

lemma id_suffix_intro:
  assumes "\<forall>c\<in>set ws. is_space c" "lit \<noteq> []" "CHR '')'' \<notin> set lit"
  shows "id_suffix (ws @ ''(#'' @ lit @ '')'') = Some lit"
proof -
  have d: "dropWhile is_space (ws @ ''(#'' @ lit @ '')'') = ''(#'' @ lit @ '')''"
    using assms(1) by (simp add: dropWhile_append paren_not_space)
  have t: "takeWhile (\<lambda>c. c \<noteq> CHR '')'') (lit @ '')'') = lit"
    using assms(3) by (subst takeWhile_append2) auto
  have r: "dropWhile (\<lambda>c. c \<noteq> CHR '')'') (lit @ '')'') = '')''"
    using assms(3) by (subst dropWhile_append2) auto
  show ?thesis
    unfolding id_suffix_def d using t r assms(2) by simp
qed

lemma id_suffix_elim:
  assumes "id_suffix s = Some lit"
  shows "\<exists>ws. s = ws @ ''(#'' @ lit @ '')'' \<and> (\<forall>c\<in>set ws. is_space c) \<and> lit \<noteq> [] \<and> CHR '')'' \<notin> set lit"
proof -
  obtain r where d: "dropWhile is_space s = CHR ''('' # CHR ''#'' # r"
    and l: "lit = takeWhile (\<lambda>c. c \<noteq> CHR '')'') r" "lit \<noteq> []"
    and e: "dropWhile (\<lambda>c. c \<noteq> CHR '')'') r = '')''"
    using assms unfolding id_suffix_def
    by (auto split: list.splits if_splits simp: Let_def)
  have "s = takeWhile is_space s @ dropWhile is_space s" by simp
  moreover have "r = lit @ '')''"
    using l(1) e takeWhile_dropWhile_id [of "\<lambda>c. c \<noteq> CHR '')''" r] by simp
  moreover have "\<forall>c\<in>set (takeWhile is_space s). is_space c"
    by (auto dest: set_takeWhileD)
  moreover have "CHR '')'' \<notin> set lit"
    unfolding l(1) by (auto dest: set_takeWhileD)
  ultimately show ?thesis using d l(2) by (intro exI [of _ "takeWhile is_space s"]) simp
qed

lemma suffix_form_Cons:
  "suffix_form (c # cs) t ws lit \<longleftrightarrow>
     \<not> is_line_terminator c \<and>
     ((t = [c] \<and> cs = ws @ ''(#'' @ lit @ '')'' \<and> (\<forall>c\<in>set ws. is_space c) \<and> lit \<noteq> [] \<and> CHR '')'' \<notin> set lit)
      \<or> (\<exists>t'. t = c # t' \<and> suffix_form cs t' ws lit))"
  unfolding suffix_form_def by (cases t) auto

lemma lazy_title_None: "lazy_title g s = None \<Longrightarrow> \<not> suffix_form s t ws lit"
proof (induction s arbitrary: g t)
  case Nil
  then show ?case by (simp add: suffix_form_def)
next
  case (Cons c cs)
  show ?case
  proof (cases "is_line_terminator c")
    case True
    then show ?thesis by (simp add: suffix_form_Cons)
  next
    case False
    with Cons.prems have n: "id_suffix cs = None" and r: "lazy_title (g @ [c]) cs = None"
      by (auto split: option.splits)
    have "\<not> (cs = ws @ ''(#'' @ lit @ '')'' \<and> (\<forall>c\<in>set ws. is_space c) \<and> lit \<noteq> [] \<and> CHR '')'' \<notin> set lit)"
    proof
      assume a: "cs = ws @ ''(#'' @ lit @ '')'' \<and> (\<forall>c\<in>set ws. is_space c) \<and> lit \<noteq> [] \<and> CHR '')'' \<notin> set lit"
      then have "id_suffix cs = Some lit" using id_suffix_intro [of ws lit] by blast
      with n show False by simp
    qed
    moreover have "\<And>t'. \<not> suffix_form cs t' ws lit" using Cons.IH [OF r] .
    ultimately show ?thesis unfolding suffix_form_Cons by blast
  qed
qed

lemma lazy_title_Some:
  "lazy_title g s = Some (m1, lit) \<Longrightarrow>
     \<exists>t ws. m1 = g @ t \<and> suffix_form s t ws lit \<and>
       (\<forall>t' ws' lit'. suffix_form s t' ws' lit' \<longrightarrow> length t \<le> length t')"
proof (induction s arbitrary: g)
  case Nil
  then show ?case by simp
next
  case (Cons c cs)
  from Cons.prems have nl: "\<not> is_line_terminator c" by (auto split: if_splits)
  show ?case
  proof (cases "id_suffix cs")
    case (Some l)
    with Cons.prems nl have eq: "m1 = g @ [c]" "l = lit" by auto
    from id_suffix_elim [OF Some] eq(2) obtain ws where
      "cs = ws @ ''(#'' @ lit @ '')''" "\<forall>c\<in>set ws. is_space c" "lit \<noteq> []" "CHR '')'' \<notin> set lit"
      by auto
    then have "suffix_form (c # cs) [c] ws lit" using nl by (simp add: suffix_form_Cons)
    moreover have "\<forall>t' ws' lit'. suffix_form (c # cs) t' ws' lit' \<longrightarrow> length [c] \<le> length t'"
      by (auto simp: suffix_form_def Suc_le_eq)
    ultimately show ?thesis using eq(1) by blast
  next
    case None
    with Cons.prems nl have r: "lazy_title (g @ [c]) cs = Some (m1, lit)" by simp
    from Cons.IH [OF r] obtain t ws where t: "m1 = (g @ [c]) @ t" "suffix_form cs t ws lit"
      and m: "\<forall>t' ws' lit'. suffix_form cs t' ws' lit' \<longrightarrow> length t \<le> length t'" by blast
    have "suffix_form (c # cs) (c # t) ws lit" using t(2) nl by (simp add: suffix_form_Cons)
    moreover have "length (c # t) \<le> length t'" if "suffix_form (c # cs) t' ws' lit'" for t' ws' lit'
    proof -
      have "\<not> (cs = ws' @ ''(#'' @ lit' @ '')'' \<and> (\<forall>c\<in>set ws'. is_space c) \<and> lit' \<noteq> [] \<and> CHR '')'' \<notin> set lit')"
      proof
        assume "cs = ws' @ ''(#'' @ lit' @ '')'' \<and> (\<forall>c\<in>set ws'. is_space c) \<and> lit' \<noteq> [] \<and> CHR '')'' \<notin> set lit'"
        then have "id_suffix cs = Some lit'" using id_suffix_intro [of ws' lit'] by blast
        with None show False by simp
      qed
      with that obtain t'' where "t' = c # t''" "suffix_form cs t'' ws' lit'"
        unfolding suffix_form_Cons by blast
      with m show ?thesis by auto
    qed
    ultimately show ?thesis using t(1) by (intro exI [of _ "c # t"] exI [of _ ws]) simp
  qed
qed

lemma suffix_form_same_length:
  assumes "suffix_form s t ws lit" "suffix_form s t' ws' lit'" "length t = length t'"
  shows "t = t' \<and> lit = lit'"
proof -
  from assms have tt: "t = t'" unfolding suffix_form_def
    by (metis append_eq_append_conv)
  with assms have e: "ws @ ''(#'' @ lit @ '')'' = ws' @ ''(#'' @ lit' @ '')''"
    unfolding suffix_form_def by auto
  have "id_suffix (ws @ ''(#'' @ lit @ '')'') = Some lit"
    using assms(1) by (intro id_suffix_intro) (auto simp: suffix_form_def)
  moreover have "id_suffix (ws' @ ''(#'' @ lit' @ '')'') = Some lit'"
    using assms(2) by (intro id_suffix_intro) (auto simp: suffix_form_def)
  ultimately have "lit = lit'" unfolding e by simp
  with tt show ?thesis by simp
qed

lemma parse_explicit:
  assumes "suffix_form str t ws lit"
    and "\<forall>t' ws' lit'. suffix_form str t' ws' lit' \<longrightarrow> length t \<le> length t'"
  shows "parseTextWithId kebab str = \<lparr>title = trim t, id' = lit\<rparr>"
proof -
  obtain m1 l where s: "lazy_title [] str = Some (m1, l)"
    using lazy_title_None [of "[]" str t ws lit] assms(1) by (cases "lazy_title [] str") auto
  from lazy_title_Some [OF s] obtain t0 ws0 where
    t0: "m1 = t0" "suffix_form str t0 ws0 l"
      "\<forall>t' ws' lit'. suffix_form str t' ws' lit' \<longrightarrow> length t0 \<le> length t'" by auto
  have "length t = length t0" using assms t0 by (meson le_antisym)
  from suffix_form_same_length [OF assms(1) t0(2) this] s t0(1) show ?thesis
    by (simp add: parseTextWithId_def)
qed

lemma parse_fallback:
  assumes "\<not> (\<exists>t ws lit. suffix_form str t ws lit)"
  shows "parseTextWithId kebab str = \<lparr>title = str, id' = kebab str\<rparr>"
proof -
  have "lazy_title [] str = None"
  proof (cases "lazy_title [] str")
    case (Some p)
    then obtain m1 l where "lazy_title [] str = Some (m1, l)" by (cases p) auto
    from lazy_title_Some [OF this] assms show ?thesis by blast
  qed simp
  then show ?thesis by (simp add: parseTextWithId_def)
qed

lemma lazy_title_minimal:
  assumes "lazy_title [] str = Some (t, lit)"
  shows "\<forall>t' ws' lit'. suffix_form str t' ws' lit' \<longrightarrow> length t \<le> length t'"
  using lazy_title_Some [OF assms] by auto

lemma has_id_marker_append: "has_id_marker (a @ CHR ''('' # CHR ''#'' # b)"
  by (induction a rule: has_id_marker.induct) simp_all

lemma empty_id_no_suffix_form:
  assumes "suffix_form (p @ ''(#)'') t ws lit"
  shows "has_id_marker p"
proof -
  from assms have e: "p @ ''(#)'' = t @ ws @ ''(#'' @ lit @ '')''" and ne: "lit \<noteq> []"
    by (auto simp: suffix_form_def)
  from e have e1: "(p @ ''('') @ ''#'' = t @ ws @ ''(#'' @ lit"
    using append_same_eq [of "p @ ''(#''" "'')''" "t @ ws @ ''(#'' @ lit"] by simp
  from ne obtain l x where l: "lit = l @ [x]" by (cases lit rule: rev_cases) auto
  with e1 have e2: "p @ ''('' = t @ ws @ ''(#'' @ l"
    using append_same_eq [of "p @ ''(''" "''#''" "t @ ws @ ''(#'' @ l"] by simp
  show ?thesis
  proof (cases l rule: rev_cases)
    case Nil
    with e2 have "p @ [CHR ''(''] = (t @ ws @ ''('') @ [CHR ''#'']" by simp
    then have "CHR ''('' = CHR ''#''" by (simp only: append1_eq_conv)
    then show ?thesis by simp
  next
    case (snoc l' y)
    with e2 have "p @ [CHR ''(''] = (t @ ws @ ''(#'' @ l') @ [y]" by simp
    then have "p = t @ ws @ ''(#'' @ l'" by (simp only: append1_eq_conv)
    then have "p = (t @ ws) @ CHR ''('' # CHR ''#'' # l'" by simp
    then show ?thesis using has_id_marker_append [of "t @ ws" l'] by simp
  qed
qed

lemma suffix_form_reading:
  "suffix_form str t ws lit \<longleftrightarrow> reading str t ws lit \<and> (\<forall>c\<in>set t. \<not> is_line_terminator c)"
  by (auto simp: suffix_form_def reading_def)

lemma reading_one_line:
  assumes "\<forall>c\<in>set str. \<not> is_line_terminator c" "reading str t ws lit"
  shows "suffix_form str t ws lit"
  using assms by (auto simp: suffix_form_def reading_def)

section \<open>The Text/ID parser: claims\<close>

text \<open>
  C4 (amended). A string read as title text, white space and a suffix \<open>(#literal-id)\<close>
  at its very end (the literal not empty and without \<open>)\<close>) is split into the trimmed
  title text and the literal, where of several such readings of the string the one with
  the shortest title text counts, provided that title text holds no line terminator;
  every string with no such reading at all keeps its full text as title and gets the
  slug of the full text as id. \<open>Overview (#custom-id)\<close> gives the title \<open>Overview\<close>
  and the id \<open>custom-id\<close>; \<open>My Great Section\<close> gives itself and the id
  \<open>my-great-section\<close>.
\<close>

theorem parseTextWithId_cases:
  "(reading str t ws lit \<and> (\<forall>c\<in>set t. \<not> is_line_terminator c) \<and>
      (\<forall>t' ws' lit'. reading str t' ws' lit' \<longrightarrow> length t \<le> length t') \<longrightarrow>
      parseTextWithId kebab str = \<lparr>title = trim t, id' = lit\<rparr>) \<and>
   ((\<nexists>t ws lit. reading str t ws lit) \<longrightarrow>
      parseTextWithId kebab str = \<lparr>title = str, id' = kebab str\<rparr>) \<and>
   parseTextWithId kebab ''Overview (#custom-id)'' = \<lparr>title = ''Overview'', id' = ''custom-id''\<rparr> \<and>
   parseTextWithId kebabCase ''My Great Section'' =
     \<lparr>title = ''My Great Section'', id' = ''my-great-section''\<rparr>"
proof (intro conjI impI)
  assume a: "reading str t ws lit \<and> (\<forall>c\<in>set t. \<not> is_line_terminator c) \<and>
    (\<forall>t' ws' lit'. reading str t' ws' lit' \<longrightarrow> length t \<le> length t')"
  then have "suffix_form str t ws lit" by (simp add: suffix_form_reading)
  moreover from a have "\<forall>t' ws' lit'. suffix_form str t' ws' lit' \<longrightarrow> length t \<le> length t'"
    by (simp add: suffix_form_reading)
  ultimately show "parseTextWithId kebab str = \<lparr>title = trim t, id' = lit\<rparr>"
    by (rule parse_explicit)
next
  assume "\<nexists>t ws lit. reading str t ws lit"
  then have "\<not> (\<exists>t ws lit. suffix_form str t ws lit)" by (simp add: suffix_form_reading)
  then show "parseTextWithId kebab str = \<lparr>title = str, id' = kebab str\<rparr>"
    by (rule parse_fallback)
next
  show "parseTextWithId kebab ''Overview (#custom-id)'' = \<lparr>title = ''Overview'', id' = ''custom-id''\<rparr>"
    by (simp add: parseTextWithId_def id_suffix_def is_space_def is_line_terminator_def
        trim_def trimEnd_def)
next
  show "parseTextWithId kebabCase ''My Great Section'' =
     \<lparr>title = ''My Great Section'', id' = ''my-great-section''\<rparr>"
    by (simp add: parseTextWithId_def id_suffix_def is_space_def is_line_terminator_def
        kebabCase_def is_alnum_def is_upper_def is_lower_def is_digit_def to_lower_def)
qed

theorem parseTextWithId_cases_witness:
  "reading ''Section Two  (#sec-2)'' ''Section Two'' ''  '' ''sec-2'' \<and>
   list_all (\<lambda>c. \<not> is_line_terminator c) ''Section Two'' \<and>
   (\<nexists>t' ws' lit'. reading ''Section Two  (#sec-2)'' t' ws' lit' \<and> length t' < length ''Section Two'') \<and>
   parseTextWithId kebabCase ''Section Two  (#sec-2)'' = \<lparr>title = ''Section Two'', id' = ''sec-2''\<rparr> \<and>
   (\<nexists>t ws lit. reading ''Section Two'' t ws lit) \<and>
   parseTextWithId kebabCase ''Section Two'' = \<lparr>title = ''Section Two'', id' = ''section-two''\<rparr>"
proof -
  have l: "lazy_title [] ''Section Two  (#sec-2)'' = Some (''Section Two'', ''sec-2'')"
    by (simp add: id_suffix_def is_space_def is_line_terminator_def)
  have f: "reading ''Section Two  (#sec-2)'' ''Section Two'' ''  '' ''sec-2''"
    by (simp add: reading_def is_space_def)
  have lt: "\<forall>c\<in>set ''Section Two''. \<not> is_line_terminator c"
    by (simp add: is_line_terminator_def)
  have o1: "\<forall>c\<in>set ''Section Two  (#sec-2)''. \<not> is_line_terminator c"
    by (simp add: is_line_terminator_def)
  have m: "\<forall>t' ws' lit'. reading ''Section Two  (#sec-2)'' t' ws' lit' \<longrightarrow>
             length ''Section Two'' \<le> length t'"
    using lazy_title_minimal [OF l] reading_one_line [OF o1] by blast
  have n: "lazy_title [] ''Section Two'' = None"
    by (simp add: id_suffix_def is_space_def is_line_terminator_def)
  have nf: "\<nexists>t ws lit. reading ''Section Two'' t ws lit"
    using lazy_title_None [OF n] reading_one_line [OF lt] by blast
  have t: "trim ''Section Two'' = ''Section Two''"
    by (simp add: trim_def trimEnd_def is_space_def)
  have k: "kebabCase ''Section Two'' = ''section-two''"
    by (simp add: kebabCase_def is_alnum_def is_upper_def is_lower_def is_digit_def to_lower_def)
  from parseTextWithId_cases [of "''Section Two  (#sec-2)''" "''Section Two''" "''  ''" "''sec-2''" kebabCase]
    f lt m t
  have "parseTextWithId kebabCase ''Section Two  (#sec-2)'' = \<lparr>title = ''Section Two'', id' = ''sec-2''\<rparr>"
    by simp
  moreover from parseTextWithId_cases [of "''Section Two''" _ _ _ kebabCase] nf k
  have "parseTextWithId kebabCase ''Section Two'' = \<lparr>title = ''Section Two'', id' = ''section-two''\<rparr>"
    by simp
  moreover have "\<nexists>t' ws' lit'. reading ''Section Two  (#sec-2)'' t' ws' lit' \<and>
      length t' < length ''Section Two''"
    using m by (meson not_le)
  moreover have "list_all (\<lambda>c. \<not> is_line_terminator c) ''Section Two''"
    using lt by (simp only: list_all_iff)
  ultimately show ?thesis using f nf by blast
qed

text \<open>
  C4 as stated fails on a string with two readings: the string below is the title text
  \<open>a (#b\<close>, a space and the suffix \<open>(#c)\<close> at its very end, and the parser returns the
  title \<open>a\<close> and the id \<open>b (#c\<close>, because the lazy group of the pattern stops at the
  shortest title text that lets the rest match.
\<close>

theorem parseTextWithId_two_readings_counterexample:
  "''a (#b (#c)'' = ''a (#b'' @ '' '' @ ''(#'' @ ''c'' @ '')'' \<and>
   list_all is_space '' '' \<and>
   parseTextWithId kebabCase ''a (#b (#c)'' = \<lparr>title = ''a'', id' = ''b (#c''\<rparr> \<and>
   parseTextWithId kebabCase ''a (#b (#c)'' \<noteq> \<lparr>title = trim ''a (#b'', id' = ''c''\<rparr>"
  by (simp add: parseTextWithId_def id_suffix_def is_space_def is_line_terminator_def
      trim_def trimEnd_def)

text \<open>
  Why the title text of the theorem holds no line terminator: the \<open>.\<close> of the pattern
  matches none, so on the text of a heading written over two lines the pattern does not
  match, whatever the suffix.
\<close>

lemma parseTextWithId_line_terminator:
  "parseTextWithId kebabCase ''a\<newline>b (#i)'' = \<lparr>title = ''a\<newline>b (#i)'', id' = ''a-b-i''\<rparr>"
  by (simp add: parseTextWithId_def id_suffix_def is_space_def is_line_terminator_def
      kebabCase_def is_alnum_def is_upper_def is_lower_def is_digit_def to_lower_def)

text \<open>
  C9 (amended). For every input that ends in \<open>(#)\<close> and holds no other \<open>(#\<close>, the
  parser does not take the explicit-id branch: the title is the full input and the id is
  the slug of the full input.
\<close>

theorem parseTextWithId_empty_id:
  "\<not> has_id_marker p \<Longrightarrow>
   parseTextWithId kebab (p @ ''(#)'') = \<lparr>title = p @ ''(#)'', id' = kebab (p @ ''(#)'')\<rparr>"
  using empty_id_no_suffix_form [of p] parse_fallback [of "p @ ''(#)''" kebab] by blast

theorem parseTextWithId_empty_id_witness:
  "\<not> has_id_marker ''Notes '' \<and>
   parseTextWithId kebabCase (''Notes '' @ ''(#)'') = \<lparr>title = ''Notes (#)'', id' = ''notes''\<rparr>"
proof -
  have h: "\<not> has_id_marker ''Notes ''" by simp
  have k: "kebabCase ''Notes (#)'' = ''notes''"
    by (simp add: kebabCase_def is_alnum_def is_upper_def is_lower_def is_digit_def to_lower_def)
  from parseTextWithId_empty_id [OF h, of kebabCase] k h show ?thesis by simp
qed

text \<open>
  C9 as stated fails on an input that ends in \<open>(#)\<close> after an earlier \<open>(#\<close>: the
  pattern reads the earlier one as the start of the id.
\<close>

theorem parseTextWithId_empty_id_counterexample:
  "parseTextWithId kebabCase (''x(#'' @ ''(#)'') = \<lparr>title = ''x'', id' = ''(#''\<rparr> \<and>
   parseTextWithId kebabCase (''x(#'' @ ''(#)'') \<noteq>
     \<lparr>title = ''x(#'' @ ''(#)'', id' = kebabCase (''x(#'' @ ''(#)'')\<rparr>"
  by (simp add: parseTextWithId_def id_suffix_def is_space_def is_line_terminator_def
      trim_def trimEnd_def)

section \<open>The sectionizer: one call\<close>

lemma findAfter_eq:
  "findAfter cs index test =
     (if dropWhile (Not \<circ> test) (drop (Suc index) cs) = [] then None
      else Some (Suc index + length (takeWhile (Not \<circ> test) (drop (Suc index) cs))))"
proof (induction cs index test rule: findAfter.induct)
  case (1 cs index test)
  show ?case
  proof (cases "index + 1 < length cs")
    case False
    then show ?thesis by (subst findAfter.simps) simp
  next
    case True
    then have d: "drop (Suc index) cs = cs ! (Suc index) # drop (Suc (Suc index)) cs"
      by (simp add: Cons_nth_drop_Suc)
    show ?thesis
    proof (cases "test (cs ! (index + 1))")
      case t: True
      with True d show ?thesis by (subst findAfter.simps) simp
    next
      case f: False
      with True d "1.IH" show ?thesis by (subst findAfter.simps) simp
    qed
  qed
qed

lemma findAfter_None_iff:
  "findAfter cs index test = None \<longleftrightarrow> (\<forall>j. index < j \<and> j < length cs \<longrightarrow> \<not> test (cs ! j))"
proof -
  have "dropWhile (Not \<circ> test) (drop (Suc index) cs) = [] \<longleftrightarrow>
        (\<forall>x\<in>set (drop (Suc index) cs). \<not> test x)"
    by (simp add: dropWhile_eq_Nil_conv)
  also have "\<dots> \<longleftrightarrow> (\<forall>j. index < j \<and> j < length cs \<longrightarrow> \<not> test (cs ! j))"
  proof
    assume a: "\<forall>x\<in>set (drop (Suc index) cs). \<not> test x"
    show "\<forall>j. index < j \<and> j < length cs \<longrightarrow> \<not> test (cs ! j)"
    proof (intro allI impI)
      fix j assume j: "index < j \<and> j < length cs"
      then have "cs ! j = drop (Suc index) cs ! (j - Suc index)" by simp
      moreover have "j - Suc index < length (drop (Suc index) cs)" using j by auto
      ultimately have "cs ! j \<in> set (drop (Suc index) cs)" by (metis nth_mem)
      with a show "\<not> test (cs ! j)" by blast
    qed
  next
    assume a: "\<forall>j. index < j \<and> j < length cs \<longrightarrow> \<not> test (cs ! j)"
    show "\<forall>x\<in>set (drop (Suc index) cs). \<not> test x"
    proof
      fix x assume "x \<in> set (drop (Suc index) cs)"
      then obtain i where "i < length (drop (Suc index) cs)" "x = drop (Suc index) cs ! i"
        by (auto simp: in_set_conv_nth)
      then have "x = cs ! (Suc index + i)" "Suc index + i < length cs" by auto
      with a show "\<not> test x" by simp
    qed
  qed
  finally show ?thesis by (simp add: findAfter_eq)
qed

lemma getComponentNameForDepth_heading:
  "is_section_heading h \<Longrightarrow> getComponentNameForDepth (ndepth h) = Inr (the (componentMap (ndepth h)))"
proof -
  assume "is_section_heading h"
  then have "ndepth h = 1 \<or> ndepth h = 2 \<or> ndepth h = 3 \<or> ndepth h = 4"
    by (auto simp: is_section_heading_def)
  then show ?thesis by (auto simp: getComponentNameForDepth_def componentMap_def)
qed

lemma sectionize_eq:
  assumes "is_section_heading h"
  shows "sectionizeToComponent kebab h index siblings eff =
           Inr (take index siblings @
                  section_for kebab h (takeWhile (Not \<circ> isEnd) (drop (Suc index) siblings)) #
                  dropWhile (Not \<circ> isEnd) (drop (Suc index) siblings),
                effects_for kebab h eff)"
proof -
  let ?rest = "drop (Suc index) siblings"
  let ?tw = "takeWhile (Not \<circ> isEnd) ?rest" and ?dw = "dropWhile (Not \<circ> isEnd) ?rest"
  define between where
    "between = slice siblings index
       (if (case findAfter siblings index isEnd of Some j \<Rightarrow> int j | None \<Rightarrow> - 1) > 0
        then Some (nat (case findAfter siblings index isEnd of Some j \<Rightarrow> int j | None \<Rightarrow> - 1))
        else None)"
  have tl: "drop 1 between = ?tw \<and> drop (index + length between) siblings = ?dw"
  proof (cases "?dw = []")
    case True
    then have "findAfter siblings index isEnd = None" by (simp add: findAfter_eq)
    then have b: "between = drop index siblings" by (simp add: between_def slice_def)
    from True have "?tw = ?rest" by (metis append_Nil2 takeWhile_dropWhile_id)
    moreover have "drop 1 between = ?rest" unfolding b by simp
    moreover have "drop (index + length between) siblings = []" unfolding b by simp
    ultimately show ?thesis using True by (simp only:)
  next
    case False
    then have f: "findAfter siblings index isEnd = Some (Suc index + length ?tw)"
      by (simp add: findAfter_eq)
    then have b: "between = take (Suc (length ?tw)) (drop index siblings)"
      by (simp add: between_def slice_def del: of_nat_Suc of_nat_add)
    have len: "length ?tw < length ?rest"
      using False by (metis length_append length_greater_0_conv less_add_same_cancel1 takeWhile_dropWhile_id)
    then have lt: "index < length siblings" by simp
    have t: "take (length ?tw) ?rest = ?tw"
      by (metis append_eq_conv_conj takeWhile_dropWhile_id)
    have d: "drop (length ?tw) ?rest = ?dw"
      by (metis append_eq_conv_conj takeWhile_dropWhile_id)
    have "drop index siblings = siblings ! index # ?rest" using lt by (simp add: Cons_nth_drop_Suc)
    with b have b2: "between = siblings ! index # take (length ?tw) ?rest" by simp
    have "length between = Suc (length ?tw)" unfolding b2 using len by simp
    then have "drop (index + length between) siblings = drop (length ?tw) ?rest"
      by (simp add: add.commute)
    with b2 t d show ?thesis by simp
  qed
  show ?thesis
    unfolding sectionizeToComponent_def Let_def between_def [symmetric]
    using tl getComponentNameForDepth_heading [OF assms]
    by (simp add: splice_def section_for_def effects_for_def record_for_def warnings_for_def
        heading_parsed_def)
qed

text \<open>
  C5. For every heading (of a depth the traversal offers) with no later sibling of type
  heading or export, the sectionizer replaces the heading and everything after it by one
  structured block node whose children are exactly all the siblings after the heading.
\<close>

theorem sectionize_to_end:
  assumes "index < length siblings"
    and "is_section_heading (siblings ! index)"
    and "\<forall>j. index < j \<and> j < length siblings \<longrightarrow> \<not> isEnd (siblings ! j)"
  shows "\<exists>block eff1.
           sectionizeToComponent kebab (siblings ! index) index siblings eff =
             Inr (take index siblings @ [block], eff1) \<and>
           ntype block = ''mdxJsxFlowElement'' \<and>
           children block = drop (Suc index) siblings"
proof -
  from assms(3) have "findAfter siblings index isEnd = None" by (simp add: findAfter_None_iff)
  then have d: "dropWhile (Not \<circ> isEnd) (drop (Suc index) siblings) = []"
    by (simp add: findAfter_eq split: if_splits)
  then have t: "takeWhile (Not \<circ> isEnd) (drop (Suc index) siblings) = drop (Suc index) siblings"
    by (metis append_Nil2 takeWhile_dropWhile_id)
  show ?thesis
    using sectionize_eq [OF assms(2), of kebab index siblings eff] d t
    by (simp add: section_for_def)
qed

theorem sectionize_to_end_witness:
  "\<exists>block eff1.
     sectionizeToComponent kebabCase
       ([paragraph_node ''intro'', heading_node 2 ''A'', paragraph_node ''p'', paragraph_node ''q''] ! 1) 1
       [paragraph_node ''intro'', heading_node 2 ''A'', paragraph_node ''p'', paragraph_node ''q'']
       no_effects =
       Inr (take 1 [paragraph_node ''intro'', heading_node 2 ''A'', paragraph_node ''p'',
                    paragraph_node ''q''] @ [block], eff1) \<and>
     ntype block = ''mdxJsxFlowElement'' \<and>
     children block =
       drop (Suc 1) [paragraph_node ''intro'', heading_node 2 ''A'', paragraph_node ''p'',
                     paragraph_node ''q'']"
proof -
  let ?s = "[paragraph_node ''intro'', heading_node 2 ''A'', paragraph_node ''p'', paragraph_node ''q'']"
  have a: "1 < length ?s" by simp
  have b: "is_section_heading (?s ! 1)" by (simp add: is_section_heading_def heading_node_def)
  have "findAfter ?s 1 isEnd = None"
    by (simp add: findAfter.simps isEnd_def paragraph_node_def)
  then have c: "\<forall>j. 1 < j \<and> j < length ?s \<longrightarrow> \<not> isEnd (?s ! j)"
    by (simp only: findAfter_None_iff)
  from sectionize_to_end [OF a b c] show ?thesis .
qed

section \<open>The traversal: effects\<close>

lemma warnings_of_append: "warnings_of (xs @ ys) = warnings_of xs @ warnings_of ys"
  by (simp add: warnings_of_def)

lemma warnings_for_record: "warnings_for kebab h = warnings_of [record_for kebab h]"
  by (simp add: warnings_for_def warnings_of_def warning_of_def record_for_def)

lemma visit_children_effects:
  "\<exists>s' new. visit_children kebab siblings offset eff =
      Inr (s', \<lparr>toc = toc eff @ new, console = console eff @ warnings_of new\<rparr>)"
proof (induction kebab siblings offset eff rule: visit_children.induct)
  case (1 kebab siblings offset eff)
  show ?case
  proof (cases "offset < length siblings")
    case False
    then have v: "visit_children kebab siblings offset eff = Inr (siblings, eff)"
      by (subst visit_children.simps) simp
    show ?thesis unfolding v
      by (intro exI [of _ siblings] exI [of _ "[]"]) (simp add: warnings_of_def)
  next
    case lt: True
    let ?x = "siblings ! offset"
    show ?thesis
    proof (cases "is_section_heading ?x")
      case True
      obtain s1 where s: "sectionizeToComponent kebab ?x offset siblings eff = Inr (s1, effects_for kebab ?x eff)"
        using sectionize_eq [OF True] by blast
      from "1.IH"(1) [OF lt refl True s refl]
      obtain s2 new1 where v1: "visit_children kebab (children ?x) 0 (effects_for kebab ?x eff) =
          Inr (s2, \<lparr>toc = toc (effects_for kebab ?x eff) @ new1,
                    console = console (effects_for kebab ?x eff) @ warnings_of new1\<rparr>)"
        by blast
      from "1.IH"(2) [OF lt refl True s refl v1 refl]
      obtain s3 new2 where v2: "visit_children kebab s1 (Suc offset)
            \<lparr>toc = toc (effects_for kebab ?x eff) @ new1,
             console = console (effects_for kebab ?x eff) @ warnings_of new1\<rparr> =
          Inr (s3, \<lparr>toc = (toc (effects_for kebab ?x eff) @ new1) @ new2,
                    console = (console (effects_for kebab ?x eff) @ warnings_of new1) @ warnings_of new2\<rparr>)"
        by auto
      have "visit_children kebab siblings offset eff =
          Inr (s3, \<lparr>toc = (toc (effects_for kebab ?x eff) @ new1) @ new2,
                    console = (console (effects_for kebab ?x eff) @ warnings_of new1) @ warnings_of new2\<rparr>)"
        by (subst visit_children.simps) (simp add: lt True s v1 v2 Let_def)
      also have "\<dots> = Inr (s3, \<lparr>toc = toc eff @ ([record_for kebab ?x] @ new1 @ new2),
                    console = console eff @ warnings_of ([record_for kebab ?x] @ new1 @ new2)\<rparr>)"
        by (simp add: effects_for_def warnings_for_record) (simp add: warnings_of_def)
      finally show ?thesis by blast
    next
      case False
      from "1.IH"(3) [OF lt refl False]
      obtain s2 new1 where v1: "visit_children kebab (children ?x) 0 eff =
          Inr (s2, \<lparr>toc = toc eff @ new1, console = console eff @ warnings_of new1\<rparr>)"
        by blast
      from "1.IH"(4) [OF lt refl False v1 refl]
      obtain s3 new2 where v2: "visit_children kebab (siblings[offset := set_children ?x s2]) (Suc offset)
            \<lparr>toc = toc eff @ new1, console = console eff @ warnings_of new1\<rparr> =
          Inr (s3, \<lparr>toc = (toc eff @ new1) @ new2,
                    console = (console eff @ warnings_of new1) @ warnings_of new2\<rparr>)"
        by auto
      have "visit_children kebab siblings offset eff =
          Inr (s3, \<lparr>toc = toc eff @ (new1 @ new2),
                    console = console eff @ warnings_of (new1 @ new2)\<rparr>)"
        by (subst visit_children.simps) (simp add: lt False v1 v2 warnings_of_append Let_def)
      then show ?thesis by blast
    qed
  qed
qed

lemma visit_effects:
  assumes "\<not> is_section_heading tree"
  shows "\<exists>tree1 new. visit kebab tree eff =
      Inr (tree1, \<lparr>toc = toc eff @ new, console = console eff @ warnings_of new\<rparr>)"
proof -
  from visit_children_effects [of kebab "children tree" 0 eff]
  obtain s' new where "visit_children kebab (children tree) 0 eff =
      Inr (s', \<lparr>toc = toc eff @ new, console = console eff @ warnings_of new\<rparr>)" by blast
  with assms show ?thesis by (simp add: visit_def)
qed

lemma getComponentNameForDepth_Inl:
  "getComponentNameForDepth d = Inl e \<longleftrightarrow> e = UnexpectedDepth d \<and> \<not> (1 \<le> d \<and> d \<le> 4)"
proof (cases "1 \<le> d \<and> d \<le> 4")
  case True
  then have "d = 1 \<or> d = 2 \<or> d = 3 \<or> d = 4" by auto
  then show ?thesis by (auto simp: getComponentNameForDepth_def componentMap_def)
next
  case False
  then show ?thesis by (auto simp: getComponentNameForDepth_def componentMap_def)
qed

section \<open>The sectionizer and the traversal: claims\<close>

text \<open>
  C6. For every heading that passes the test of the traversal (type heading, depth from
  1 to 4) the lookup of the component name succeeds, with 1 for Section, 2 for
  SubSection, 3 for SubSubSection and 4 for SubSubSubSection; the lookup throws exactly
  for the other depths, and neither the traversal of a child array nor that of a tree
  ever ends in that error.
\<close>

theorem component_name_for_offered_depths:
  "getComponentNameForDepth 1 = Inr ''Section'' \<and>
   getComponentNameForDepth 2 = Inr ''SubSection'' \<and>
   getComponentNameForDepth 3 = Inr ''SubSubSection'' \<and>
   getComponentNameForDepth 4 = Inr ''SubSubSubSection'' \<and>
   (is_section_heading n \<longrightarrow>
      getComponentNameForDepth (ndepth n) = Inr (the (componentMap (ndepth n))) \<and>
      the (componentMap (ndepth n)) \<in> {''Section'', ''SubSection'', ''SubSubSection'', ''SubSubSubSection''}) \<and>
   (getComponentNameForDepth d = Inl e \<longleftrightarrow> e = UnexpectedDepth d \<and> \<not> (1 \<le> d \<and> d \<le> 4)) \<and>
   visit_children kebab siblings offset eff \<noteq> Inl (UnexpectedDepth d) \<and>
   visit kebab tree eff \<noteq> Inl (UnexpectedDepth d)"
proof (intro conjI impI)
  assume h: "is_section_heading n"
  then show "getComponentNameForDepth (ndepth n) = Inr (the (componentMap (ndepth n)))"
    by (rule getComponentNameForDepth_heading)
  from h have "ndepth n = 1 \<or> ndepth n = 2 \<or> ndepth n = 3 \<or> ndepth n = 4"
    by (auto simp: is_section_heading_def)
  then show "the (componentMap (ndepth n)) \<in> {''Section'', ''SubSection'', ''SubSubSection'', ''SubSubSubSection''}"
    by (auto simp: componentMap_def)
next
  show "getComponentNameForDepth d = Inl e \<longleftrightarrow> e = UnexpectedDepth d \<and> \<not> (1 \<le> d \<and> d \<le> 4)"
    by (rule getComponentNameForDepth_Inl)
next
  show "visit_children kebab siblings offset eff \<noteq> Inl (UnexpectedDepth d)"
    using visit_children_effects [of kebab siblings offset eff] by auto
next
  show "visit kebab tree eff \<noteq> Inl (UnexpectedDepth d)"
  proof (cases "is_section_heading tree")
    case True
    then show ?thesis by (simp add: visit_def)
  next
    case False
    from visit_effects [OF this, of kebab eff] show ?thesis by auto
  qed
qed (simp_all add: getComponentNameForDepth_def componentMap_def)

theorem component_name_for_offered_depths_witness:
  "is_section_heading (heading_node 3 ''Details'') \<and>
   getComponentNameForDepth (ndepth (heading_node 3 ''Details'')) = Inr ''SubSubSection''"
proof -
  have h: "is_section_heading (heading_node 3 ''Details'')"
    by (simp add: is_section_heading_def heading_node_def)
  have "the (componentMap (ndepth (heading_node 3 ''Details''))) = ''SubSubSection''"
    by (simp add: componentMap_def heading_node_def)
  with component_name_for_offered_depths [of "heading_node 3 ''Details''"] h show ?thesis by simp
qed

text \<open>
  C7. One call of the sectionizer writes one warning to the console when the heading has
  depth 1 and none otherwise, and the warning holds the parsed title and the parsed id;
  it pushes one record on the ToC accumulator and does not fail. Over a whole document
  the console therefore holds, in order, exactly one warning for every record of depth 1
  that the traversal pushed, that is for every depth-1 heading processed, and none for
  any other; that is the console the transform leaves behind, whether or not the nester
  throws afterwards.
\<close>

theorem warning_once_per_depth1_heading:
  "(is_section_heading h \<longrightarrow>
      (\<exists>s1 eff1. sectionizeToComponent kebab h index siblings eff = Inr (s1, eff1) \<and>
         toc eff1 = toc eff @ [record_for kebab h] \<and>
         console eff1 = console eff @
           (if ndepth h = 1
            then [warning_message (title (heading_parsed kebab h)) (id' (heading_parsed kebab h))]
            else []))) \<and>
   (\<exists>pre mid post. warning_message t i = pre @ t @ mid @ i @ post) \<and>
   (\<not> is_section_heading tree \<longrightarrow>
      (\<exists>tree1 processed. visit kebab tree no_effects =
         Inr (tree1, \<lparr>toc = processed,
                       console = map (\<lambda>r. warning_message (title r) (id' r))
                                   (filter (\<lambda>r. depth r = 1) processed)\<rparr>) \<and>
         out_console (remarkSectionTransform kebab tree vf) =
           map (\<lambda>r. warning_message (title r) (id' r)) (filter (\<lambda>r. depth r = 1) processed)))"
proof (intro conjI impI)
  assume "is_section_heading h"
  from sectionize_eq [OF this, of kebab index siblings eff]
  show "\<exists>s1 eff1. sectionizeToComponent kebab h index siblings eff = Inr (s1, eff1) \<and>
         toc eff1 = toc eff @ [record_for kebab h] \<and>
         console eff1 = console eff @
           (if ndepth h = 1
            then [warning_message (title (heading_parsed kebab h)) (id' (heading_parsed kebab h))]
            else [])"
    by (simp add: effects_for_def warnings_for_def)
next
  show "\<exists>pre mid post. warning_message t i = pre @ t @ mid @ i @ post"
    unfolding warning_message_def
    by (intro exI [of _ "''\<newline>WARNING:'' @ ''Section with title\<newline>'' @ '' ''"]
              exI [of _ "''\<newline>'' @ ''will be given the generic id\<newline>'' @ '' page_title\<newline>'' @
                         ''instead of the custom id\<newline>'' @ '' ''"]
              exI [of _ "''.\<newline>''"]) simp
next
  assume "\<not> is_section_heading tree"
  from visit_effects [OF this, of kebab no_effects]
  obtain tree1 processed where v: "visit kebab tree no_effects =
         Inr (tree1, \<lparr>toc = processed,
                       console = map (\<lambda>r. warning_message (title r) (id' r))
                                   (filter (\<lambda>r. depth r = 1) processed)\<rparr>)"
    by (auto simp: no_effects_def warnings_of_def warning_of_def [abs_def])
  then have "out_console (remarkSectionTransform kebab tree vf) =
      map (\<lambda>r. warning_message (title r) (id' r)) (filter (\<lambda>r. depth r = 1) processed)"
    by (simp add: remarkSectionTransform_def no_effects_def Let_def split: sum.splits)
  with v show "\<exists>tree1 processed. visit kebab tree no_effects =
         Inr (tree1, \<lparr>toc = processed,
                       console = map (\<lambda>r. warning_message (title r) (id' r))
                                   (filter (\<lambda>r. depth r = 1) processed)\<rparr>) \<and>
         out_console (remarkSectionTransform kebab tree vf) =
           map (\<lambda>r. warning_message (title r) (id' r)) (filter (\<lambda>r. depth r = 1) processed)"
    by blast
qed

theorem warning_once_per_depth1_heading_witness:
  "is_section_heading (heading_node 1 ''Title'') \<and>
   \<not> is_section_heading (root_node [heading_node 1 ''Title'', heading_node 2 ''A'']) \<and>
   (\<exists>tree1. visit kebabCase (root_node [heading_node 1 ''Title'', heading_node 2 ''A'']) no_effects =
      Inr (tree1,
           \<lparr>toc = [\<lparr>title = ''Title'', id' = ''title'', depth = 1\<rparr>,
                   \<lparr>title = ''A'', id' = ''a'', depth = 2\<rparr>],
            console = [warning_message ''Title'' ''title'']\<rparr>))"
proof -
  let ?doc = "root_node [heading_node 1 ''Title'', heading_node 2 ''A'']"
  have h: "is_section_heading (heading_node 1 ''Title'')"
    by (simp add: is_section_heading_def heading_node_def)
  have r: "\<not> is_section_heading ?doc"
    by (simp add: is_section_heading_def root_node_def)
  have ev: "toc (snd (projr (visit kebabCase ?doc no_effects))) =
      [\<lparr>title = ''Title'', id' = ''title'', depth = 1\<rparr>, \<lparr>title = ''A'', id' = ''a'', depth = 2\<rparr>]"
    by code_simp
  from warning_once_per_depth1_heading [where kebab = kebabCase and tree = ?doc and vf = example_file] r
  obtain tree1 processed where v: "visit kebabCase ?doc no_effects =
      Inr (tree1, \<lparr>toc = processed,
                    console = map (\<lambda>r. warning_message (title r) (id' r))
                                (filter (\<lambda>r. depth r = 1) processed)\<rparr>)"
    by blast
  with ev have "processed =
      [\<lparr>title = ''Title'', id' = ''title'', depth = 1\<rparr>, \<lparr>title = ''A'', id' = ''a'', depth = 2\<rparr>]"
    by simp
  with v h r show ?thesis by simp
qed

section \<open>The ToC nester: validation\<close>

text \<open>
  C3. On an empty or absent list the nester returns the empty result and no error; on a
  non-empty list with no record of depth 1 it fails; on a non-empty list with more than
  one record of depth 1 it fails with an error that carries the number of such records.
\<close>

theorem nestHeadings_validation:
  "nestHeadings None = Inr [] \<and>
   nestHeadings (Some []) = Inr [] \<and>
   (flat \<noteq> [] \<and> length (filter (\<lambda>h. depth h = 1) flat) = 0 \<longrightarrow>
      nestHeadings (Some flat) = Inl NoDepth1Heading) \<and>
   (flat \<noteq> [] \<and> length (filter (\<lambda>h. depth h = 1) flat) > 1 \<longrightarrow>
      nestHeadings (Some flat) = Inl (ManyDepth1Headings (length (filter (\<lambda>h. depth h = 1) flat))))"
  by (simp add: nestHeadings_def Let_def)

theorem nestHeadings_validation_witness:
  "nestHeadings (Some [\<lparr>title = ''A'', id' = ''a'', depth = 2\<rparr>]) = Inl NoDepth1Heading \<and>
   nestHeadings (Some [\<lparr>title = ''T'', id' = ''t'', depth = 1\<rparr>, \<lparr>title = ''A'', id' = ''a'', depth = 2\<rparr>,
                       \<lparr>title = ''U'', id' = ''u'', depth = 1\<rparr>]) = Inl (ManyDepth1Headings 2)"
  using nestHeadings_validation [of "[\<lparr>title = ''A'', id' = ''a'', depth = 2\<rparr>]"]
    nestHeadings_validation [of "[\<lparr>title = ''T'', id' = ''t'', depth = 1\<rparr>,
      \<lparr>title = ''A'', id' = ''a'', depth = 2\<rparr>, \<lparr>title = ''U'', id' = ''u'', depth = 1\<rparr>]"]
  by simp

section \<open>The ToC nester: the loop\<close>

lemma spec_parent_less: "spec_parent fs j = Some a \<Longrightarrow> a < j"
proof -
  assume a: "spec_parent fs j = Some a"
  let ?m = "Max (set (map (\<lambda>i. depth (fs ! i)) (shallower fs j)))"
  let ?c = "filter (\<lambda>i. depth (fs ! i) = ?m) (shallower fs j)"
  from a have ne: "shallower fs j \<noteq> []" and l: "a = last ?c"
    by (auto simp: spec_parent_def split: if_splits)
  have "?m \<in> set (map (\<lambda>i. depth (fs ! i)) (shallower fs j))"
    using ne by (intro Max_in) auto
  then have "?c \<noteq> []" by (auto simp: filter_empty_conv)
  then have "last ?c \<in> set ?c" by (rule last_in_set)
  then have "last ?c \<in> set [0..<j]" by (auto simp: shallower_def)
  with l show "a < j" by simp
qed

lemma find_parent_None_iff:
  "find_parent ps d = None \<longleftrightarrow> (\<forall>d'. 1 \<le> d' \<and> d' \<le> d \<longrightarrow> ps d' = None)"
proof (induction ps d rule: find_parent.induct)
  case (1 ps d)
  show ?case
  proof (cases "d \<ge> 1")
    case False
    then show ?thesis by (subst find_parent.simps) auto
  next
    case True
    show ?thesis
    proof (cases "ps d")
      case None
      with True "1.IH" have "find_parent ps d = None \<longleftrightarrow> (\<forall>d'. 1 \<le> d' \<and> d' \<le> d - 1 \<longrightarrow> ps d' = None)"
        by (subst find_parent.simps) simp
      also have "\<dots> \<longleftrightarrow> (\<forall>d'. 1 \<le> d' \<and> d' \<le> d \<longrightarrow> ps d' = None)"
      proof
        assume a: "\<forall>d'. 1 \<le> d' \<and> d' \<le> d - 1 \<longrightarrow> ps d' = None"
        show "\<forall>d'. 1 \<le> d' \<and> d' \<le> d \<longrightarrow> ps d' = None"
        proof (intro allI impI)
          fix d' assume "1 \<le> d' \<and> d' \<le> d"
          then have "d' = d \<or> (1 \<le> d' \<and> d' \<le> d - 1)" by auto
          with a None show "ps d' = None" by auto
        qed
      qed auto
      finally show ?thesis .
    next
      case (Some p)
      with True show ?thesis by (subst find_parent.simps) auto
    qed
  qed
qed

lemma find_parent_Some:
  "find_parent ps d = Some p \<Longrightarrow>
     \<exists>d'. 1 \<le> d' \<and> d' \<le> d \<and> ps d' = Some p \<and> (\<forall>d''. d' < d'' \<and> d'' \<le> d \<longrightarrow> ps d'' = None)"
proof (induction ps d rule: find_parent.induct)
  case (1 ps d)
  from "1.prems" have ge: "d \<ge> 1" by (subst (asm) find_parent.simps) (auto split: if_splits)
  show ?case
  proof (cases "ps d")
    case (Some q)
    with "1.prems" ge have "q = p" by (subst (asm) find_parent.simps) simp
    with Some ge show ?thesis by (intro exI [of _ d]) auto
  next
    case None
    with "1.prems" ge have "find_parent ps (d - 1) = Some p" by (subst (asm) find_parent.simps) simp
    from "1.IH" [OF ge None this] obtain d' where
      d': "1 \<le> d'" "d' \<le> d - 1" "ps d' = Some p" "\<forall>d''. d' < d'' \<and> d'' \<le> d - 1 \<longrightarrow> ps d'' = None"
      by blast
    have "\<forall>d''. d' < d'' \<and> d'' \<le> d \<longrightarrow> ps d'' = None"
    proof (intro allI impI)
      fix d'' assume "d' < d'' \<and> d'' \<le> d"
      then have "d'' = d \<or> (d' < d'' \<and> d'' \<le> d - 1)" by auto
      with d'(4) None show "ps d'' = None" by auto
    qed
    with d'(1,2,3) show ?thesis by (intro exI [of _ d']) auto
  qed
qed

lemma last_at_Suc:
  "last_at fs (Suc k) d = (if depth (fs ! k) = d then Some k else last_at fs k d)"
  by (simp add: last_at_def)

lemma last_at_None_iff: "last_at fs k d = None \<longleftrightarrow> (\<forall>i<k. depth (fs ! i) \<noteq> d)"
  by (auto simp: last_at_def filter_empty_conv)

lemma last_at_Some_depth: "last_at fs k d = Some p \<Longrightarrow> p < k \<and> depth (fs ! p) = d"
proof -
  assume a: "last_at fs k d = Some p"
  let ?c = "filter (\<lambda>i. depth (fs ! i) = d) [0..<k]"
  from a have "?c \<noteq> []" "p = last ?c" by (auto simp: last_at_def split: if_splits)
  then have "p \<in> set ?c" using last_in_set by blast
  then show ?thesis by auto
qed

lemma find_parent_spec:
  assumes ps: "\<forall>d. d < depth (fs ! k) \<longrightarrow> ps d = last_at fs k d"
    and ge: "\<forall>i<k. 1 \<le> depth (fs ! i)"
  shows "find_parent ps (depth (fs ! k) - 1) = spec_parent fs k"
proof (cases "find_parent ps (depth (fs ! k) - 1)")
  case None
  then have n: "\<forall>d'. 1 \<le> d' \<and> d' \<le> depth (fs ! k) - 1 \<longrightarrow> ps d' = None"
    by (simp only: find_parent_None_iff)
  have "shallower fs k = []"
  proof (rule ccontr)
    assume "shallower fs k \<noteq> []"
    then obtain i where i: "i < k" "depth (fs ! i) < depth (fs ! k)"
      by (auto simp: shallower_def filter_empty_conv)
    with ge n ps have "last_at fs k (depth (fs ! i)) = None" by auto
    with i(1) show False by (auto simp: last_at_None_iff)
  qed
  with None show ?thesis by (simp add: spec_parent_def)
next
  case (Some p)
  from find_parent_Some [OF Some] obtain d' where
    d': "1 \<le> d'" "d' \<le> depth (fs ! k) - 1" "ps d' = Some p"
      "\<forall>d''. d' < d'' \<and> d'' \<le> depth (fs ! k) - 1 \<longrightarrow> ps d'' = None"
    by blast
  from d'(2,3) ps have la: "last_at fs k d' = Some p" by auto
  from last_at_Some_depth [OF la] have p: "p < k" "depth (fs ! p) = d'" by auto
  have pin: "p \<in> set (shallower fs k)" using p d'(2) by (auto simp: shallower_def)
  then have ne: "shallower fs k \<noteq> []" by auto
  let ?ds = "set (map (\<lambda>i. depth (fs ! i)) (shallower fs k))"
  have "Max ?ds = d'"
  proof (rule Max_eqI)
    show "finite ?ds" by simp
    show "d' \<in> ?ds" using pin p(2) by force
    fix y assume "y \<in> ?ds"
    then obtain i where i: "i < k" "depth (fs ! i) < depth (fs ! k)" "y = depth (fs ! i)"
      by (auto simp: shallower_def)
    show "y \<le> d'"
    proof (rule ccontr)
      assume "\<not> y \<le> d'"
      with i d'(4) have "ps y = None" by auto
      with i ps have "last_at fs k y = None" by auto
      with i(1,3) show False by (auto simp: last_at_None_iff)
    qed
  qed
  moreover have "filter (\<lambda>i. depth (fs ! i) = d') (shallower fs k) =
                 filter (\<lambda>i. depth (fs ! i) = d') [0..<k]"
    unfolding shallower_def filter_filter using d'(2)
    by (intro filter_cong) auto
  ultimately have "spec_parent fs k = last_at fs k d'"
    using ne la by (simp add: spec_parent_def last_at_def split: if_splits)
  with Some la show ?thesis by simp
qed

lemma nest_inv_init: "nest_inv fs 0 \<lparr>store = [], parents = Map.empty, nestedHeadings = []\<rparr>"
  by (simp add: nest_inv_def last_at_def)

lemma filter_upt_Suc:
  "filter P [0..<Suc k] = filter P [0..<k] @ (if P k then [k] else [])"
  by simp

lemma nest_step_inv:
  assumes inv: "nest_inv fs k s"
    and ge: "\<forall>i<k. 1 \<le> depth (fs ! i)"
  shows "nest_inv fs (Suc k) (nest_step s (fs ! k))"
proof -
  let ?h = "fs ! k"
  let ?store1 = "store s @ [\<lparr>cell_heading = ?h, cell_children = []\<rparr>]"
  let ?parents1 = "(parents s)(depth ?h \<mapsto> k)"
  from inv have len: "length (store s) = k"
    and hd: "\<forall>i<k. cell_heading (store s ! i) = fs ! i"
    and ps: "\<forall>d. parents s d = last_at fs k d"
    and ch: "\<forall>p<k. cell_children (store s ! p) = filter (\<lambda>j. spec_parent fs j = Some p) [0..<k]"
    and rt: "nestedHeadings s = filter (\<lambda>j. spec_parent fs j = None) [0..<k]"
    by (auto simp: nest_inv_def)
  have ps1: "\<forall>d. ?parents1 d = last_at fs (Suc k) d"
    using ps by (simp add: last_at_Suc)
  have "\<forall>d. d < depth ?h \<longrightarrow> ?parents1 d = last_at fs k d" using ps by simp
  from find_parent_spec [OF this ge]
  have fp: "find_parent ?parents1 (depth ?h - 1) = spec_parent fs k" .
  have nok: "spec_parent fs j \<noteq> Some k" if "j \<le> k" for j
    using spec_parent_less [of fs j k] that by auto
  have newcell: "filter (\<lambda>j. spec_parent fs j = Some k) [0..<Suc k] = []"
    using nok by (auto simp: filter_empty_conv)
  show ?thesis
  proof (cases "spec_parent fs k")
    case None
    then have s': "nest_step s ?h =
        s\<lparr>store := ?store1, parents := ?parents1, nestedHeadings := nestedHeadings s @ [k]\<rparr>"
      using fp len by (simp add: nest_step_def Let_def)
    have c: "cell_children (?store1 ! p) = filter (\<lambda>j. spec_parent fs j = Some p) [0..<Suc k]"
      if "p < Suc k" for p
    proof (cases "p = k")
      case True
      have "?store1 ! k = \<lparr>cell_heading = ?h, cell_children = []\<rparr>"
        using len by (metis nth_append_length)
      with True newcell show ?thesis by (simp only:) simp
    next
      case False
      with that have "p < k" by simp
      with ch len None show ?thesis by (simp add: nth_append)
    qed
    have h: "cell_heading (?store1 ! i) = fs ! i" if "i < Suc k" for i
      using that hd len by (cases "i = k") (auto simp: nth_append)
    show ?thesis
      unfolding nest_inv_def s' using len ps1 c h rt None by simp
  next
    case (Some p)
    then have pk: "p < k" by (rule spec_parent_less)
    let ?store2 = "?store1[p := (?store1 ! p)\<lparr>cell_children := cell_children (?store1 ! p) @ [k]\<rparr>]"
    have s': "nest_step s ?h = s\<lparr>store := ?store2, parents := ?parents1\<rparr>"
      using fp len Some by (simp add: nest_step_def Let_def)
    have l2: "length ?store2 = Suc k" using len by simp
    have c: "cell_children (?store2 ! q) = filter (\<lambda>j. spec_parent fs j = Some q) [0..<Suc k]"
      if "q < Suc k" for q
    proof (cases "q = p")
      case True
      have "cell_children (?store2 ! p) = cell_children (store s ! p) @ [k]"
        using pk len by (simp add: nth_append)
      with ch pk Some True show ?thesis by simp
    next
      case False
      show ?thesis
      proof (cases "q = k")
        case True
        with False len newcell show ?thesis by (simp add: nth_append)
      next
        case qk: False
        with that have "q < k" by simp
        with ch len Some False show ?thesis by (simp add: nth_append)
      qed
    qed
    have h: "cell_heading (?store2 ! i) = fs ! i" if "i < Suc k" for i
    proof (cases "i = p")
      case True
      with pk hd len show ?thesis by (simp add: nth_append)
    next
      case False
      with that hd len show ?thesis by (cases "i = k") (auto simp: nth_append)
    qed
    show ?thesis
      unfolding nest_inv_def s' using l2 ps1 c h rt Some by simp
  qed
qed

lemma nest_fold_inv:
  assumes "\<forall>i<length fs. 1 \<le> depth (fs ! i)"
  shows "k \<le> length fs \<Longrightarrow> nest_inv fs k s \<Longrightarrow>
         nest_inv fs (length fs) (foldl nest_step s (drop k fs))"
proof (induction "length fs - k" arbitrary: k s)
  case 0
  then show ?case by simp
next
  case (Suc n)
  then have lt: "k < length fs" by simp
  then have d: "drop k fs = fs ! k # drop (Suc k) fs" by (simp add: Cons_nth_drop_Suc)
  have "nest_inv fs (Suc k) (nest_step s (fs ! k))"
    using nest_step_inv [OF Suc.prems(2)] assms lt by simp
  moreover have "n = length fs - Suc k" using Suc.hyps(2) by simp
  ultimately have "nest_inv fs (length fs) (foldl nest_step (nest_step s (fs ! k)) (drop (Suc k) fs))"
    using Suc.hyps(1) lt by simp
  then show ?case by (simp add: d)
qed

lemma reify_spec_tree:
  assumes "nest_inv fs (length fs) s"
  shows "a < length fs \<Longrightarrow> reify (store s) a = spec_tree fs a"
proof (induction "length fs - a" arbitrary: a rule: less_induct)
  case less
  let ?n = "length fs"
  from assms have len: "length (store s) = ?n"
    and hd: "cell_heading (store s ! a) = fs ! a"
    and ch: "cell_children (store s ! a) = filter (\<lambda>j. spec_parent fs j = Some a) [0..<?n]"
    using less.prems by (auto simp: nest_inv_def)
  have split: "[0..<?n] = [0..<Suc a] @ [Suc a..<?n]"
    using less.prems by (metis Suc_leI le0 upt_add_eq_append le_add_diff_inverse)
  have "spec_parent fs j \<noteq> Some a" if "j \<le> a" for j
    using spec_parent_less [of fs j a] that by auto
  then have e: "filter (\<lambda>j. spec_parent fs j = Some a) [0..<Suc a] = []"
    by (auto simp: filter_empty_conv)
  have "filter (\<lambda>j. spec_parent fs j = Some a) [0..<?n] =
        filter (\<lambda>j. spec_parent fs j = Some a) [0..<Suc a] @
        filter (\<lambda>j. spec_parent fs j = Some a) [Suc a..<?n]"
    by (subst split) (rule filter_append)
  with e ch have kids: "cell_children (store s ! a) = filter (\<lambda>j. spec_parent fs j = Some a) [Suc a..<?n]"
    by (simp only: append_Nil)
  have guard: "filter (\<lambda>k. a < k \<and> k < length (store s)) (cell_children (store s ! a)) =
               cell_children (store s ! a)"
    unfolding kids len filter_filter by (rule filter_cong) auto
  have "map (reify (store s)) (cell_children (store s ! a)) =
        map (spec_tree fs) (cell_children (store s ! a))"
  proof (rule map_cong [OF refl])
    fix j assume "j \<in> set (cell_children (store s ! a))"
    then have "a < j" "j < ?n" unfolding kids by auto
    then show "reify (store s) j = spec_tree fs j"
      using less.hyps [of j] by simp
  qed
  then show ?case
    by (subst reify.simps, subst spec_tree.simps) (simp add: guard hd kids [symmetric])
qed

lemma nestHeadings_spec_forest:
  assumes "length (filter (\<lambda>h. depth h = 1) flat) = 1"
    and "\<forall>h\<in>set flat. 1 \<le> depth h"
  shows "nestHeadings (Some flat) = Inr (spec_forest (filter (\<lambda>h. depth h \<noteq> 1) flat))"
proof -
  let ?fs = "filter (\<lambda>h. depth h \<noteq> 1) flat"
  let ?s = "foldl nest_step \<lparr>store = [], parents = Map.empty, nestedHeadings = []\<rparr> ?fs"
  from assms(1) have ne: "flat \<noteq> []" by auto
  have "\<forall>i<length ?fs. 1 \<le> depth (?fs ! i)"
    using assms(2) by (metis filter_is_subset nth_mem subsetD)
  from nest_fold_inv [OF this, of 0, OF _ nest_inv_init]
  have inv: "nest_inv ?fs (length ?fs) ?s" by simp
  then have roots: "nestedHeadings ?s = filter (\<lambda>j. spec_parent ?fs j = None) [0..<length ?fs]"
    by (simp add: nest_inv_def)
  have "map (reify (store ?s)) (nestedHeadings ?s) = spec_forest ?fs"
    unfolding roots spec_forest_def
    by (rule map_cong [OF refl]) (simp add: reify_spec_tree [OF inv])
  moreover from assms(1) have "\<not> length (filter (\<lambda>h. depth h = 1) flat) > 1"
    "length (filter (\<lambda>h. depth h = 1) flat) \<noteq> 0" by simp_all
  ultimately show ?thesis using ne unfolding nestHeadings_def Let_def by simp
qed

lemma sum_list_filter_split:
  fixes R :: "nat \<Rightarrow> 'a multiset"
  assumes "\<forall>x\<in>set xs. \<not> (P x \<and> Q x)"
  shows "sum_list (map R (filter (\<lambda>x. P x \<or> Q x) xs)) =
         sum_list (map R (filter P xs)) + sum_list (map R (filter Q xs))"
  using assms by (induction xs) auto

lemma records_spec_tree:
  "mset (toc_records (spec_tree fs a)) =
     {#fs ! a#} + sum_list (map (\<lambda>j. mset (toc_records (spec_tree fs j)))
                     (filter (\<lambda>j. spec_parent fs j = Some a) [Suc a..<length fs]))"
  by (subst spec_tree.simps) (simp add: mset_concat comp_def)

text \<open>The subtrees rooted at the nodes from \<open>k\<close> on whose parent is not among them hold
  the records from \<open>k\<close> on, each once.\<close>

lemma records_from:
  "k \<le> length fs \<Longrightarrow>
   sum_list (map (\<lambda>j. mset (toc_records (spec_tree fs j)))
     (filter (\<lambda>j. spec_parent fs j = None \<or> (\<exists>p<k. spec_parent fs j = Some p)) [k..<length fs])) =
   mset (drop k fs)"
proof (induction "length fs - k" arbitrary: k)
  case 0
  then show ?case by simp
next
  case (Suc n)
  let ?R = "\<lambda>j. mset (toc_records (spec_tree fs j))"
  let ?n = "length fs"
  from Suc have lt: "k < ?n" by simp
  have up: "[k..<?n] = k # [Suc k..<?n]" using lt by (simp add: upt_conv_Cons)
  have outk: "spec_parent fs k = None \<or> (\<exists>p<k. spec_parent fs k = Some p)"
    using spec_parent_less [of fs k] by (cases "spec_parent fs k") auto
  have IH: "sum_list (map ?R (filter (\<lambda>j. spec_parent fs j = None \<or> (\<exists>p<Suc k. spec_parent fs j = Some p))
              [Suc k..<?n])) = mset (drop (Suc k) fs)"
    using Suc.hyps(1) [of "Suc k"] Suc.hyps(2) lt by simp
  have eq: "(\<lambda>j. spec_parent fs j = None \<or> (\<exists>p<Suc k. spec_parent fs j = Some p)) =
            (\<lambda>j. (spec_parent fs j = None \<or> (\<exists>p<k. spec_parent fs j = Some p)) \<or> spec_parent fs j = Some k)"
    by (auto simp: less_Suc_eq)
  have split: "sum_list (map ?R (filter (\<lambda>j. spec_parent fs j = None \<or> (\<exists>p<Suc k. spec_parent fs j = Some p))
              [Suc k..<?n])) =
     sum_list (map ?R (filter (\<lambda>j. spec_parent fs j = None \<or> (\<exists>p<k. spec_parent fs j = Some p)) [Suc k..<?n])) +
     sum_list (map ?R (filter (\<lambda>j. spec_parent fs j = Some k) [Suc k..<?n]))"
    unfolding eq by (rule sum_list_filter_split) auto
  have "sum_list (map ?R (filter (\<lambda>j. spec_parent fs j = None \<or> (\<exists>p<k. spec_parent fs j = Some p)) [k..<?n])) =
        ?R k + sum_list (map ?R (filter (\<lambda>j. spec_parent fs j = None \<or> (\<exists>p<k. spec_parent fs j = Some p)) [Suc k..<?n]))"
    unfolding up using outk by simp
  also have "\<dots> = {#fs ! k#} + mset (drop (Suc k) fs)"
    using IH split by (simp add: records_spec_tree [of fs k] ac_simps)
  also have "\<dots> = mset (drop k fs)" using lt by (simp flip: Cons_nth_drop_Suc)
  finally show ?case .
qed

lemma records_spec_forest: "mset (concat (map toc_records (spec_forest fs))) = mset fs"
  using records_from [of 0 fs] by (simp add: spec_forest_def mset_concat comp_def)

section \<open>The ToC nester: the nesting rule\<close>

text \<open>
  C2. For every list of section records with exactly one record of depth 1 (the depths
  being those of headings, 1 or more), the result of the nester is the forest of the
  specification over the records other than the one of depth 1: the parent of a record
  is the most recently registered node at the greatest depth strictly less than its own,
  and a record with no registered shallower node is a root; the records of the result
  are the records other than the one of depth 1, each once. One step of the loop
  registers its node under the depth of its record and leaves the node tracked for every
  other depth in place.
\<close>

theorem nestHeadings_nesting_rule:
  "(length (filter (\<lambda>h. depth h = 1) flat) = 1 \<and> (\<forall>h\<in>set flat. 1 \<le> depth h) \<longrightarrow>
      nestHeadings (Some flat) = Inr (spec_forest (filter (\<lambda>h. depth h \<noteq> 1) flat)) \<and>
      (\<exists>out. nestHeadings (Some flat) = Inr out \<and>
         mset (concat (map toc_records out)) = mset (filter (\<lambda>h. depth h \<noteq> 1) flat))) \<and>
   parents (nest_step s heading) (depth heading) = Some (length (store s)) \<and>
   (\<forall>d. d \<noteq> depth heading \<longrightarrow> parents (nest_step s heading) d = parents s d)"
proof (intro conjI impI allI)
  assume a: "length (filter (\<lambda>h. depth h = 1) flat) = 1 \<and> (\<forall>h\<in>set flat. 1 \<le> depth h)"
  then show n: "nestHeadings (Some flat) = Inr (spec_forest (filter (\<lambda>h. depth h \<noteq> 1) flat))"
    using nestHeadings_spec_forest by blast
  show "\<exists>out. nestHeadings (Some flat) = Inr out \<and>
         mset (concat (map toc_records out)) = mset (filter (\<lambda>h. depth h \<noteq> 1) flat)"
    using n records_spec_forest [of "filter (\<lambda>h. depth h \<noteq> 1) flat"] by blast
next
  show "parents (nest_step s heading) (depth heading) = Some (length (store s))"
    by (simp add: nest_step_def Let_def split: option.splits)
next
  fix d assume "d \<noteq> depth heading"
  then show "parents (nest_step s heading) d = parents s d"
    by (simp add: nest_step_def Let_def split: option.splits)
qed

theorem nestHeadings_nesting_rule_witness:
  "nestHeadings (Some [\<lparr>title = ''T'', id' = ''t'', depth = 1\<rparr>, \<lparr>title = ''A'', id' = ''a'', depth = 2\<rparr>,
                       \<lparr>title = ''B'', id' = ''b'', depth = 3\<rparr>, \<lparr>title = ''C'', id' = ''c'', depth = 2\<rparr>]) =
     Inr [TocNode \<lparr>title = ''A'', id' = ''a'', depth = 2\<rparr>
            [TocNode \<lparr>title = ''B'', id' = ''b'', depth = 3\<rparr> []],
          TocNode \<lparr>title = ''C'', id' = ''c'', depth = 2\<rparr> []]"
proof -
  let ?flat = "[\<lparr>title = ''T'', id' = ''t'', depth = 1\<rparr>, \<lparr>title = ''A'', id' = ''a'', depth = 2\<rparr>,
                \<lparr>title = ''B'', id' = ''b'', depth = 3\<rparr>, \<lparr>title = ''C'', id' = ''c'', depth = 2\<rparr>]"
  have h: "length (filter (\<lambda>h. depth h = 1) ?flat) = 1 \<and> (\<forall>h\<in>set ?flat. 1 \<le> depth h)"
    by simp
  have f: "spec_forest (filter (\<lambda>h. depth h \<noteq> 1) ?flat) =
     [TocNode \<lparr>title = ''A'', id' = ''a'', depth = 2\<rparr>
            [TocNode \<lparr>title = ''B'', id' = ''b'', depth = 3\<rparr> []],
          TocNode \<lparr>title = ''C'', id' = ''c'', depth = 2\<rparr> []]"
    by code_simp
  from nestHeadings_nesting_rule [of ?flat] h f show ?thesis by simp
qed

section \<open>The code-block transform: how a meta string is scanned\<close>

lemma equals_not_word_char: "\<not> is_word_char (CHR ''='')"
  by (simp add: is_word_char_def is_upper_def is_lower_def is_digit_def)

lemma space_not_word_char: "is_space c \<Longrightarrow> \<not> is_word_char c"
  by (auto simp: is_space_def is_word_char_def is_upper_def is_lower_def is_digit_def)

lemma space_not_equals: "is_space c \<Longrightarrow> c \<noteq> CHR ''=''"
  by (auto simp: is_space_def)

lemma quoted_value_None_iff:
  "quoted_value x = None \<longleftrightarrow> (x = [] \<or> hd x \<noteq> CHR 0x22 \<or> CHR 0x22 \<notin> set (tl x))"
proof (cases x)
  case Nil
  then show ?thesis by (simp add: quoted_value_def)
next
  case (Cons a w)
  note x = Cons
  have e: "dropWhile (\<lambda>c. c \<noteq> CHR 0x22) w = [] \<longleftrightarrow> CHR 0x22 \<notin> set w"
    by (auto simp: dropWhile_eq_Nil_conv)
  show ?thesis
  proof (cases "a = CHR 0x22")
    case False
    then show ?thesis unfolding x by (simp add: quoted_value_def)
  next
    case True
    show ?thesis
    proof (cases "dropWhile (\<lambda>c. c \<noteq> CHR 0x22) w")
      case Nil
      with e have "CHR 0x22 \<notin> set w" by blast
      with Nil True show ?thesis
        unfolding x by (simp add: quoted_value_def del: dropWhile_eq_Nil_conv)
    next
      case (Cons b r)
      with e have "CHR 0x22 \<in> set w" by (metis list.distinct(1))
      with Cons True show ?thesis
        unfolding x by (simp add: quoted_value_def)
    qed
  qed
qed

lemma quoted_value_closed:
  assumes "CHR 0x22 \<notin> set q"
  shows "quoted_value (CHR 0x22 # q @ CHR 0x22 # s) = Some (q, s)"
proof -
  have t: "takeWhile (\<lambda>c. c \<noteq> CHR 0x22) (q @ CHR 0x22 # s) = q"
    using assms by (subst takeWhile_append2) auto
  have d: "dropWhile (\<lambda>c. c \<noteq> CHR 0x22) (q @ CHR 0x22 # s) = CHR 0x22 # s"
    using assms by (subst dropWhile_append2) auto
  show ?thesis unfolding quoted_value_def by (simp only: list.case t d) simp
qed

lemma unquoted_value_run:
  assumes "u \<noteq> []" "\<forall>c\<in>set u. \<not> is_space c" "s = [] \<or> is_space (hd s)"
  shows "unquoted_value (u @ s) = Some (u, s)"
proof -
  have t0: "takeWhile (\<lambda>c. \<not> is_space c) s = []" using assms(3) by (cases s) auto
  have d0: "dropWhile (\<lambda>c. \<not> is_space c) s = s" using assms(3) by (cases s) auto
  have t: "takeWhile (\<lambda>c. \<not> is_space c) (u @ s) = u"
    using assms(2) t0 by (subst takeWhile_append2) auto
  have d: "dropWhile (\<lambda>c. \<not> is_space c) (u @ s) = s"
    using assms(2) d0 by (subst dropWhile_append2) auto
  show ?thesis unfolding unquoted_value_def Let_def t d using assms(1) by simp
qed

lemma match_here_key:
  assumes "k \<noteq> []" "\<forall>c\<in>set k. is_word_char c"
  shows "match_here (k @ CHR ''='' # v) =
           (case quoted_value v of
              Some (q, rest) \<Rightarrow> Some (k, Some q, None, rest)
            | None \<Rightarrow>
                (case unquoted_value v of
                   Some (u, rest) \<Rightarrow> Some (k, None, Some u, rest)
                 | None \<Rightarrow> None))"
proof -
  have t: "takeWhile is_word_char (k @ CHR ''='' # v) = k"
    using assms(2) by (subst takeWhile_append2) (auto simp: equals_not_word_char)
  have d: "dropWhile is_word_char (k @ CHR ''='' # v) = CHR ''='' # v"
    using assms(2) by (subst dropWhile_append2) (auto simp: equals_not_word_char)
  show ?thesis unfolding match_here_def Let_def t d using assms(1) by simp
qed

lemma match_here_entry:
  assumes "item_ok (Entry k v)" "s = [] \<or> is_space (hd s)"
  shows "match_here (render_entry (k, v) @ s) = Some (k, quoted_group v, unquoted_group v, s)"
proof -
  from assms(1) have k: "k \<noteq> []" "\<forall>c\<in>set k. is_word_char c" and v: "value_ok v" by auto
  show ?thesis
  proof (cases v)
    case (Quoted q)
    with v have "quoted_value (render_value v @ s) = Some (q, s)"
      using quoted_value_closed [of q s] by simp
    with Quoted show ?thesis
      using match_here_key [OF k, of "render_value v @ s"] by (simp add: render_entry_def)
  next
    case (Unquoted u)
    with v have u: "u \<noteq> []" "hd u \<noteq> CHR 0x22" "\<forall>c\<in>set u. \<not> is_space c" by auto
    from u(1,2) have "quoted_value (u @ s) = None" by (simp add: quoted_value_None_iff)
    moreover have "unquoted_value (u @ s) = Some (u, s)"
      by (rule unquoted_value_run [OF u(1) u(3) assms(2)])
    ultimately show ?thesis
      using Unquoted match_here_key [OF k, of "u @ s"] by (simp add: render_entry_def)
  qed
qed

lemma match_all_Nil: "match_all [] = []"
  by (subst match_all.simps) simp

lemma match_all_None: "s \<noteq> [] \<Longrightarrow> match_here s = None \<Longrightarrow> match_all s = match_all (tl s)"
  by (subst match_all.simps) simp

lemma match_all_Some:
  assumes "match_here s = Some (k, q, u, rest)"
  shows "match_all s = take (length s - length rest) s # match_all rest"
proof -
  from match_here_shorter [OF assms] have "s \<noteq> []" by auto
  with assms show ?thesis by (subst match_all.simps) simp
qed

lemma match_here_NoneI:
  assumes "dropWhile is_word_char x = [] \<or> hd (dropWhile is_word_char x) \<noteq> CHR ''=''"
  shows "match_here x = None"
proof (cases "dropWhile is_word_char x")
  case Nil
  show ?thesis unfolding match_here_def Let_def Nil by simp
next
  case (Cons e v)
  with assms have "e \<noteq> CHR ''=''" by simp
  then show ?thesis unfolding match_here_def Let_def Cons by simp
qed

lemma match_here_no_equals:
  assumes "CHR ''='' \<notin> set j" "s = [] \<or> is_space (hd s)"
  shows "match_here (j @ s) = None"
proof -
  have b: "dropWhile is_word_char s = [] \<or> hd (dropWhile is_word_char s) \<noteq> CHR ''=''"
    using assms(2) by (cases s) (auto simp: space_not_word_char space_not_equals)
  have "dropWhile is_word_char (j @ s) = [] \<or> hd (dropWhile is_word_char (j @ s)) \<noteq> CHR ''=''"
    using assms(1) b by (induction j) auto
  then show ?thesis by (rule match_here_NoneI)
qed

lemma match_all_skip:
  assumes "CHR ''='' \<notin> set j" "s = [] \<or> is_space (hd s)"
  shows "match_all (j @ s) = match_all s"
  using assms(1)
proof (induction j)
  case Nil
  show ?case by simp
next
  case (Cons a j)
  from Cons.prems have "match_here ((a # j) @ s) = None"
    by (intro match_here_no_equals assms(2))
  then have "match_all ((a # j) @ s) = match_all (tl ((a # j) @ s))"
    by (intro match_all_None) simp_all
  with Cons show ?case by simp
qed

lemma match_all_space:
  "\<forall>c\<in>set ws. is_space c \<Longrightarrow> match_all (ws @ s) = match_all s"
proof (induction ws)
  case Nil
  show ?case by simp
next
  case (Cons c ws)
  then have "\<not> is_word_char c" by (simp add: space_not_word_char)
  then have "match_here (c # ws @ s) = None" by (simp add: match_here_def)
  then have "match_all (c # ws @ s) = match_all (tl (c # ws @ s))"
    by (intro match_all_None) simp_all
  with Cons show ?case by simp
qed

lemma match_all_entry:
  assumes "item_ok (Entry k v)" "s = [] \<or> is_space (hd s)"
  shows "match_all (render_entry (k, v) @ s) = render_entry (k, v) # match_all s"
  by (simp add: match_all_Some [OF match_here_entry [OF assms]])

lemma following_space:
  assumes "\<forall>c\<in>set ws. is_space c" "rest \<noteq> [] \<longrightarrow> ws \<noteq> []"
  shows "ws @ render_items rest = [] \<or> is_space (hd (ws @ render_items rest))"
  using assms by (cases ws) auto

lemma match_all_items:
  "well_formed items \<Longrightarrow> match_all (render_items items) = map render_entry (entries_of items)"
proof (induction items rule: entries_of.induct)
  case 1
  show ?case by (simp add: match_all_Nil)
next
  case (2 k v ws rest)
  then have ok: "item_ok (Entry k v)" and sp: "\<forall>c\<in>set ws. is_space c"
    and ne: "rest \<noteq> [] \<longrightarrow> ws \<noteq> []" and wf: "well_formed rest" by auto
  have "match_all (render_entry (k, v) @ ws @ render_items rest) =
          render_entry (k, v) # match_all (ws @ render_items rest)"
    by (rule match_all_entry [OF ok following_space [OF sp ne]])
  also have "match_all (ws @ render_items rest) = match_all (render_items rest)"
    by (rule match_all_space [OF sp])
  finally show ?case using "2.IH" [OF wf] by simp
next
  case (3 w ws rest)
  then have ok: "CHR ''='' \<notin> set w" and sp: "\<forall>c\<in>set ws. is_space c"
    and ne: "rest \<noteq> [] \<longrightarrow> ws \<noteq> []" and wf: "well_formed rest" by auto
  have "match_all (w @ ws @ render_items rest) = match_all (ws @ render_items rest)"
    by (rule match_all_skip [OF ok following_space [OF sp ne]])
  also have "\<dots> = match_all (render_items rest)"
    by (rule match_all_space [OF sp])
  finally show ?case using "3.IH" [OF wf] by simp
qed

lemma match_all_meta:
  assumes "well_formed items" "\<forall>c\<in>set lead. is_space c"
  shows "match_all (render_meta lead items) = map render_entry (entries_of items)"
  unfolding render_meta_def match_all_space [OF assms(2)] by (rule match_all_items [OF assms(1)])

lemma match_first_Some:
  "match_here s = Some (k, q, u, rest) \<Longrightarrow> match_first s = Some (k, q, u)"
  by (cases s) (auto simp: match_here_def)

lemma match_first_entry:
  assumes "item_ok (Entry k v)"
  shows "match_first (render_entry (k, v)) = Some (k, quoted_group v, unquoted_group v)"
  using match_here_entry [OF assms, of "[]"] by (intro match_first_Some [of _ _ _ _ "[]"]) simp

lemma entries_ok:
  "well_formed items \<Longrightarrow> \<forall>e\<in>set (entries_of items). item_ok (Entry (fst e) (snd e))"
  by (induction items rule: entries_of.induct) auto

lemma js_or_groups: "value_ok v \<Longrightarrow> js_or (quoted_group v) (unquoted_group v) = stored_value v"
  by (cases v) (auto simp: js_or_def)

section \<open>The code-block transform: what is stored\<close>

lemma store_matches_entries:
  "\<forall>e\<in>set es. item_ok (Entry (fst e) (snd e)) \<Longrightarrow>
   store_matches obj (map render_entry es) =
     Inr (foldl (\<lambda>ob e. set_property ob (fst e) (stored_value (snd e))) obj es)"
proof (induction es arbitrary: obj)
  case Nil
  show ?case by simp
next
  case (Cons e es)
  obtain k v where e: "e = (k, v)" by (cases e)
  with Cons.prems have ok: "item_ok (Entry k v)" by simp
  then have v: "value_ok v" by simp
  from Cons.prems have rest: "\<forall>e\<in>set es. item_ok (Entry (fst e) (snd e))" by simp
  show ?case
    unfolding e using match_first_entry [OF ok] js_or_groups [OF v] Cons.IH [OF rest]
    by simp
qed

lemma foldl_meta_lookup:
  "foldl (\<lambda>ob e. set_property ob (fst e) (stored_value (snd e))) Map.empty es = meta_lookup es"
proof (induction es rule: rev_induct)
  case Nil
  show ?case by (auto simp: meta_lookup_def)
next
  case (snoc e es)
  show ?case
    unfolding foldl_append foldl_Cons foldl_Nil snoc.IH
    by (rule ext) (auto simp: meta_lookup_def set_property_def)
qed

lemma parseMeta_eq: "parseMeta meta = store_matches Map.empty (match_all meta)"
  by (simp add: parseMeta_def match_all_Nil)

lemma parseMeta_well_formed:
  assumes "well_formed items" "\<forall>c\<in>set lead. is_space c"
  shows "parseMeta (render_meta lead items) = Inr (meta_lookup (entries_of items))"
  unfolding parseMeta_eq match_all_meta [OF assms]
    store_matches_entries [OF entries_ok [OF assms(1)]] foldl_meta_lookup ..

lemma meta_lookup_not_empty_string:
  assumes "\<forall>e\<in>set es. item_ok (Entry (fst e) (snd e))"
  shows "meta_lookup es k \<noteq> Some (Some [])"
proof
  assume "meta_lookup es k = Some (Some [])"
  then obtain v where m: "map_of (rev es) k = Some v" and s: "stored_value v = Some []"
    by (auto simp: meta_lookup_def split: if_splits)
  from map_of_SomeD [OF m] have "(k, v) \<in> set es" by simp
  with assms have "value_ok v" by fastforce
  with s show False by (cases v) (auto split: if_splits)
qed

lemma codeBoxElement_eq:
  assumes "parseMeta meta = Inr obj" "obj ''id'' \<noteq> Some (Some [])"
  shows "codeBoxElement (Node ty d v l meta n a cs) = Inr (code_box v l (id_attribute obj))"
  using assms
  by (auto simp: codeBoxElement_def code_box_def id_attribute_def truthy_def Let_def
      split: option.splits)

section \<open>The code-block transform: every match matches again\<close>

lemma take_prefix: "take (length (x @ y) - length y) (x @ y) = x"
  by simp

lemma rematch:
  assumes "match_here s = Some (k, q, u, rest)"
  shows "match_here (take (length s - length rest) s) = Some (k, q, u, [])"
proof -
  from assms obtain v where k: "k = takeWhile is_word_char s" "k \<noteq> []"
    and d: "dropWhile is_word_char s = CHR ''='' # v"
    and r: "(\<exists>q'. quoted_value v = Some (q', rest) \<and> q = Some q' \<and> u = None) \<or>
            (quoted_value v = None \<and> (\<exists>u'. unquoted_value v = Some (u', rest) \<and> q = None \<and> u = Some u'))"
    by (auto simp: match_here_def Let_def split: list.splits if_splits option.splits)
  have s: "s = k @ CHR ''='' # v"
    using takeWhile_dropWhile_id [of is_word_char s] unfolding d k(1) [symmetric] by simp
  have kw: "\<forall>c\<in>set k. is_word_char c" unfolding k(1) by (auto dest: set_takeWhileD)
  from r show ?thesis
  proof
    assume "\<exists>q'. quoted_value v = Some (q', rest) \<and> q = Some q' \<and> u = None"
    then obtain q' where qv: "quoted_value v = Some (q', rest)" and g: "q = Some q'" "u = None"
      by blast
    from qv obtain w b where v: "v = CHR 0x22 # w"
      and dw: "dropWhile (\<lambda>c. c \<noteq> CHR 0x22) w = b # rest"
      and q': "q' = takeWhile (\<lambda>c. c \<noteq> CHR 0x22) w"
      by (auto simp: quoted_value_def split: list.splits if_splits)
    from hd_dropWhile [of "\<lambda>c. c \<noteq> CHR 0x22" w] dw have b: "b = CHR 0x22" by simp
    have w: "w = q' @ CHR 0x22 # rest"
      using takeWhile_dropWhile_id [of "\<lambda>c. c \<noteq> CHR 0x22" w] unfolding dw q' [symmetric] b by simp
    have nq: "CHR 0x22 \<notin> set q'" unfolding q' by (auto dest: set_takeWhileD)
    have s2: "s = render_entry (k, Quoted q') @ rest"
      by (subst s, subst v, subst w) (simp add: render_entry_def)
    have tk: "take (length s - length rest) s = render_entry (k, Quoted q')"
      using take_prefix [of "render_entry (k, Quoted q')" rest] s2 by simp
    have "item_ok (Entry k (Quoted q'))" using k(2) kw nq by simp
    from match_here_entry [OF this, of "[]"] show ?thesis unfolding tk g by simp
  next
    assume "quoted_value v = None \<and> (\<exists>u'. unquoted_value v = Some (u', rest) \<and> q = None \<and> u = Some u')"
    then obtain u' where qn: "quoted_value v = None" and uv: "unquoted_value v = Some (u', rest)"
      and g: "q = None" "u = Some u'" by blast
    from uv have u': "u' = takeWhile (\<lambda>c. \<not> is_space c) v" "u' \<noteq> []"
      and rs: "rest = dropWhile (\<lambda>c. \<not> is_space c) v"
      by (auto simp: unquoted_value_def Let_def split: if_splits)
    have v: "v = u' @ rest" unfolding u'(1) rs by simp
    have us: "\<forall>c\<in>set u'. \<not> is_space c" unfolding u'(1) by (auto dest: set_takeWhileD)
    have s3: "s = (k @ CHR ''='' # u') @ rest"
      by (subst s, subst v) simp
    have tk: "take (length s - length rest) s = k @ CHR ''='' # u'"
      using take_prefix [of "k @ CHR ''='' # u'" rest] s3 by simp
    from u'(2) obtain c cs where uc: "u' = c # cs" by (cases u') auto
    from qn have "hd v \<noteq> CHR 0x22 \<or> CHR 0x22 \<notin> set (tl v)"
      using u'(2) v by (auto simp: quoted_value_None_iff)
    then have "hd u' \<noteq> CHR 0x22 \<or> CHR 0x22 \<notin> set (tl u')"
      unfolding uc by (subst (asm) (1 2) v) (auto simp: uc)
    then have "quoted_value u' = None" by (simp add: quoted_value_None_iff)
    moreover have "unquoted_value u' = Some (u', [])"
      using unquoted_value_run [OF u'(2) us, of "[]"] by simp
    ultimately show ?thesis
      unfolding tk g using match_here_key [OF k(2) kw, of u'] by simp
  qed
qed

lemma match_all_rematch: "m \<in> set (match_all s) \<Longrightarrow> match_first m \<noteq> None"
proof (induction s rule: match_all.induct)
  case (1 s)
  show ?case
  proof (cases "s = []")
    case True
    with "1.prems" show ?thesis by (simp add: match_all_Nil)
  next
    case False
    show ?thesis
    proof (cases "match_here s")
      case None
      with False "1.prems" have "m \<in> set (match_all (tl s))" by (simp add: match_all_None)
      with "1.IH"(1) [OF False None] show ?thesis by simp
    next
      case (Some r)
      then obtain k q u rest where mh: "match_here s = Some (k, q, u, rest)" by (cases r) auto
      from "1.prems" have "m = take (length s - length rest) s \<or> m \<in> set (match_all rest)"
        by (simp add: match_all_Some [OF mh])
      then show ?thesis
      proof
        assume "m = take (length s - length rest) s"
        with match_first_Some [OF rematch [OF mh]] show ?thesis by simp
      next
        assume "m \<in> set (match_all rest)"
        with "1.IH"(2) [OF False mh refl refl refl] show ?thesis by simp
      qed
    qed
  qed
qed

lemma store_matches_total:
  "\<forall>m\<in>set ms. match_first m \<noteq> None \<Longrightarrow> \<exists>obj'. store_matches obj ms = Inr obj'"
  by (induction ms arbitrary: obj) auto

lemma store_matches_append:
  "store_matches obj (xs @ ys) =
     (case store_matches obj xs of Inl e \<Rightarrow> Inl e | Inr ob \<Rightarrow> store_matches ob ys)"
  by (induction xs arbitrary: obj) (auto split: option.splits)

lemma store_matches_other_keys:
  "store_matches obj ms = Inr obj' \<Longrightarrow>
   \<forall>m\<in>set ms. map_option fst (match_first m) \<noteq> Some k \<Longrightarrow> obj' k = obj k"
proof (induction ms arbitrary: obj)
  case Nil
  then show ?case by simp
next
  case (Cons m ms)
  from Cons.prems(1) obtain key qv uv where mf: "match_first m = Some (key, qv, uv)"
    and st: "store_matches (set_property obj key (js_or qv uv)) ms = Inr obj'"
    by (auto split: option.splits)
  from Cons.prems(2) mf have "key \<noteq> k" by auto
  moreover from Cons.prems(2) have "\<forall>m\<in>set ms. map_option fst (match_first m) \<noteq> Some k" by simp
  ultimately show ?case using Cons.IH [OF st] by (simp add: set_property_def)
qed

lemma store_matches_last:
  assumes "store_matches obj (pre @ m # post) = Inr obj'"
    and "match_first m = Some (k, qv, uv)"
    and "\<forall>m'\<in>set post. map_option fst (match_first m') \<noteq> Some k"
    and "k \<noteq> ''__proto__''"
  shows "obj' k = Some (js_or qv uv)"
proof -
  from assms(1) obtain ob where "store_matches obj pre = Inr ob"
    and "store_matches ob (m # post) = Inr obj'"
    unfolding store_matches_append by (auto split: sum.splits)
  with assms(2) have "store_matches (set_property ob k (js_or qv uv)) post = Inr obj'" by simp
  from store_matches_other_keys [OF this assms(3)] assms(4) show ?thesis
    by (simp add: set_property_def)
qed

lemma parseMeta_total: "\<exists>obj. parseMeta meta = Inr obj"
  unfolding parseMeta_eq by (intro store_matches_total ballI match_all_rematch)

lemma parseMeta_last_empty:
  assumes "match_all meta = pre @ m # post"
    and "match_first m = Some (k, Some [], None)"
    and "\<forall>m'\<in>set post. map_option fst (match_first m') \<noteq> Some k"
    and "k \<noteq> ''__proto__''"
  shows "\<exists>obj. parseMeta meta = Inr obj \<and> obj k = Some None"
proof -
  from parseMeta_total obtain obj where p: "parseMeta meta = Inr obj" by blast
  then have "store_matches Map.empty (pre @ m # post) = Inr obj"
    unfolding parseMeta_eq assms(1) .
  from store_matches_last [OF this assms(2,3,4)] have "obj k = Some None"
    by (simp add: js_or_def)
  with p show ?thesis by blast
qed

section \<open>The code-block transform: claims\<close>

text \<open>
  C10 (amended). In every meta string, a match of the entry pattern whose quoted value
  is the empty string (\<open>key=""\<close>), whose key is not \<open>__proto__\<close> and after which no
  match has the same key, leaves the key mapped to \<open>undefined\<close> in the parsed meta,
  whatever an earlier entry stored there; if the key is \<open>id\<close>, the CodeBox element has
  the attributes \<open>code\<close> and \<open>language\<close> and no \<open>id\<close>, as for a code node without
  meta. For a meta string written as entries and other words separated by white space,
  the matches are exactly the entries written, the parsed meta holds for every key other
  than \<open>__proto__\<close> what its last entry stores, and the CodeBox element gets the \<open>id\<close>
  attribute that goes with it.
\<close>

theorem empty_quoted_meta_value:
  "(match_all meta = pre @ m # post \<and> match_first m = Some (k, Some [], None) \<and>
      (\<forall>m'\<in>set post. map_option fst (match_first m') \<noteq> Some k) \<and> k \<noteq> ''__proto__'' \<longrightarrow>
      (\<exists>obj. parseMeta meta = Inr obj \<and> obj k = Some None)) \<and>
   (match_all meta = pre @ m # post \<and> match_first m = Some (''id'', Some [], None) \<and>
      (\<forall>m'\<in>set post. map_option fst (match_first m') \<noteq> Some ''id'') \<longrightarrow>
      codeBoxElement (Node ty d v l meta n a cs) =
        Inr (Node ''mdxJsxFlowElement'' 0 [] [] [] ''CodeBox''
               [MdxJsxAttribute ''code'' (ExpressionValue v),
                MdxJsxAttribute ''language'' (StringValue l)] []) \<and>
      codeBoxElement (Node ty d v l meta n a cs) = codeBoxElement (Node ty d v l [] n a cs)) \<and>
   (well_formed items \<and> (\<forall>c\<in>set lead. is_space c) \<longrightarrow>
      match_all (render_meta lead items) = map render_entry (entries_of items) \<and>
      parseMeta (render_meta lead items) = Inr (meta_lookup (entries_of items)) \<and>
      codeBoxElement (Node ty d v l (render_meta lead items) n a cs) =
        Inr (code_box v l (id_attribute (meta_lookup (entries_of items)))))"
proof (intro conjI impI)
  assume "match_all meta = pre @ m # post \<and> match_first m = Some (k, Some [], None) \<and>
      (\<forall>m'\<in>set post. map_option fst (match_first m') \<noteq> Some k) \<and> k \<noteq> ''__proto__''"
  then show "\<exists>obj. parseMeta meta = Inr obj \<and> obj k = Some None"
    using parseMeta_last_empty [of meta pre m post k] by blast
next
  assume h: "match_all meta = pre @ m # post \<and> match_first m = Some (''id'', Some [], None) \<and>
      (\<forall>m'\<in>set post. map_option fst (match_first m') \<noteq> Some ''id'')"
  have "''id'' \<noteq> ''__proto__''" by simp
  with h obtain obj where p: "parseMeta meta = Inr obj" and u: "obj ''id'' = Some None"
    using parseMeta_last_empty [of meta pre m post "''id''"] by blast
  from u have "obj ''id'' \<noteq> Some (Some [])" by simp
  from codeBoxElement_eq [OF p this, of ty d v l n a cs] u
  show e: "codeBoxElement (Node ty d v l meta n a cs) =
        Inr (Node ''mdxJsxFlowElement'' 0 [] [] [] ''CodeBox''
               [MdxJsxAttribute ''code'' (ExpressionValue v),
                MdxJsxAttribute ''language'' (StringValue l)] [])"
    by (simp add: code_box_def id_attribute_def)
  have "codeBoxElement (Node ty d v l [] n a cs) =
        Inr (Node ''mdxJsxFlowElement'' 0 [] [] [] ''CodeBox''
               [MdxJsxAttribute ''code'' (ExpressionValue v),
                MdxJsxAttribute ''language'' (StringValue l)] [])"
    by (simp add: codeBoxElement_def parseMeta_def truthy_def)
  with e show "codeBoxElement (Node ty d v l meta n a cs) = codeBoxElement (Node ty d v l [] n a cs)"
    by simp
next
  assume "well_formed items \<and> (\<forall>c\<in>set lead. is_space c)"
  then have w: "well_formed items" "\<forall>c\<in>set lead. is_space c" by auto
  show "match_all (render_meta lead items) = map render_entry (entries_of items)"
    by (rule match_all_meta [OF w])
  show p: "parseMeta (render_meta lead items) = Inr (meta_lookup (entries_of items))"
    by (rule parseMeta_well_formed [OF w])
  show "codeBoxElement (Node ty d v l (render_meta lead items) n a cs) =
        Inr (code_box v l (id_attribute (meta_lookup (entries_of items))))"
    by (rule codeBoxElement_eq [OF p meta_lookup_not_empty_string [OF entries_ok [OF w(1)]]])
qed

theorem empty_quoted_meta_value_witness:
  "well_formed example_meta_items \<and> list_all is_space '' '' \<and>
   render_meta '' '' example_meta_items =
     '' {1,3} id=x id='' @ [CHR 0x22, CHR 0x22] @ ''  showLineNumbers title='' @
     [CHR 0x22] @ ''My file'' @ [CHR 0x22] \<and>
   match_all (render_meta '' '' example_meta_items) =
     [''id=x''] @ (''id='' @ [CHR 0x22, CHR 0x22]) # [''title='' @ [CHR 0x22] @ ''My file'' @ [CHR 0x22]] \<and>
   match_first (''id='' @ [CHR 0x22, CHR 0x22]) = Some (''id'', Some [], None) \<and>
   list_all (\<lambda>m'. map_option fst (match_first m') \<noteq> Some ''id'')
     [''title='' @ [CHR 0x22] @ ''My file'' @ [CHR 0x22]] \<and>
   ''id'' \<noteq> ''__proto__'' \<and>
   (\<exists>obj. parseMeta (render_meta '' '' example_meta_items) = Inr obj \<and>
      obj ''id'' = Some None \<and> obj ''title'' = Some (Some ''My file'')) \<and>
   codeBoxElement (Node ''code'' 0 ''let x'' ''js'' (render_meta '' '' example_meta_items) [] [] []) =
     Inr (Node ''mdxJsxFlowElement'' 0 [] [] [] ''CodeBox''
            [MdxJsxAttribute ''code'' (ExpressionValue ''let x''),
             MdxJsxAttribute ''language'' (StringValue ''js'')] [])"
proof -
  let ?meta = "render_meta '' '' example_meta_items"
  let ?m = "''id='' @ [CHR 0x22, CHR 0x22]"
  let ?post = "[''title='' @ [CHR 0x22] @ ''My file'' @ [CHR 0x22]]"
  have wf: "well_formed example_meta_items" by code_simp
  have sp: "\<forall>c\<in>set '' ''. is_space c" by (simp add: is_space_def)
  have r: "?meta = '' {1,3} id=x id='' @ [CHR 0x22, CHR 0x22] @ ''  showLineNumbers title='' @
     [CHR 0x22] @ ''My file'' @ [CHR 0x22]"
    by (simp add: render_meta_def example_meta_items_def render_entry_def)
  have es: "map render_entry (entries_of example_meta_items) = [''id=x''] @ ?m # ?post"
    by (simp add: example_meta_items_def render_entry_def)
  have mf: "match_first ?m = Some (''id'', Some [], None)" by code_simp
  have po: "\<forall>m'\<in>set ?post. map_option fst (match_first m') \<noteq> Some ''id''" by code_simp
  have lk: "meta_lookup (entries_of example_meta_items) ''id'' = Some None"
    "meta_lookup (entries_of example_meta_items) ''title'' = Some (Some ''My file'')"
    by (simp_all add: meta_lookup_def example_meta_items_def)
  note inst = empty_quoted_meta_value [where meta = ?meta and pre = "[''id=x'']" and m = ?m
      and post = ?post and k = "''id''" and items = example_meta_items and lead = "'' ''"
      and ty = "''code''" and d = 0 and v = "''let x''" and l = "''js''" and n = "[]"
      and a = "[]" and cs = "[]"]
  from inst wf sp es have ma: "match_all ?meta = [''id=x''] @ ?m # ?post" by simp
  from inst wf sp have pm: "parseMeta ?meta = Inr (meta_lookup (entries_of example_meta_items))"
    by simp
  from inst ma mf po have cb:
    "codeBoxElement (Node ''code'' 0 ''let x'' ''js'' ?meta [] [] []) =
     Inr (Node ''mdxJsxFlowElement'' 0 [] [] [] ''CodeBox''
            [MdxJsxAttribute ''code'' (ExpressionValue ''let x''),
             MdxJsxAttribute ''language'' (StringValue ''js'')] [])"
    by blast
  have np: "''id'' \<noteq> ''__proto__''" by simp
  from inst ma mf po np have "\<exists>obj. parseMeta ?meta = Inr obj \<and> obj ''id'' = Some None"
    by blast
  with pm lk(2) have "\<exists>obj. parseMeta ?meta = Inr obj \<and>
      obj ''id'' = Some None \<and> obj ''title'' = Some (Some ''My file'')" by auto
  moreover have "list_all is_space '' ''" using sp by (simp only: list_all_iff)
  moreover have "list_all (\<lambda>m'. map_option fst (match_first m') \<noteq> Some ''id'') ?post"
    using po by (simp only: list_all_iff)
  ultimately show ?thesis using wf r ma mf cb np by blast
qed

text \<open>
  C10 as stated fails where a later entry has the same key: in \<open>id="" id=x\<close> the entry
  \<open>id=""\<close> has the empty string as its quoted value, yet the parsed meta maps \<open>id\<close>
  to \<open>x\<close> and the CodeBox element gets an \<open>id\<close> attribute. It also fails for the key
  \<open>__proto__\<close>: \<open>__proto__=""\<close> matches with the empty string as its quoted value, and
  the parsed meta has nothing stored under the key, not even \<open>undefined\<close>.
\<close>

theorem empty_quoted_meta_value_counterexample:
  "match_all (''id='' @ [CHR 0x22, CHR 0x22] @ '' id=x'') =
     [''id='' @ [CHR 0x22, CHR 0x22], ''id=x''] \<and>
   match_first (''id='' @ [CHR 0x22, CHR 0x22]) = Some (''id'', Some [], None) \<and>
   parseMeta (''id='' @ [CHR 0x22, CHR 0x22] @ '' id=x'') = Inr [''id'' \<mapsto> Some ''x''] \<and>
   codeBoxElement (Node ''code'' 0 ''let x'' ''js'' (''id='' @ [CHR 0x22, CHR 0x22] @ '' id=x'') [] [] []) =
     Inr (Node ''mdxJsxFlowElement'' 0 [] [] [] ''CodeBox''
            [MdxJsxAttribute ''code'' (ExpressionValue ''let x''),
             MdxJsxAttribute ''language'' (StringValue ''js''),
             MdxJsxAttribute ''id'' (StringValue ''x'')] []) \<and>
   match_all (''__proto__='' @ [CHR 0x22, CHR 0x22]) = [''__proto__='' @ [CHR 0x22, CHR 0x22]] \<and>
   match_first (''__proto__='' @ [CHR 0x22, CHR 0x22]) = Some (''__proto__'', Some [], None) \<and>
   parseMeta (''__proto__='' @ [CHR 0x22, CHR 0x22]) = Inr Map.empty"
proof -
  let ?meta = "''id='' @ [CHR 0x22, CHR 0x22] @ '' id=x''"
  have ma: "match_all ?meta = [''id='' @ [CHR 0x22, CHR 0x22], ''id=x'']" by code_simp
  have m1: "match_first (''id='' @ [CHR 0x22, CHR 0x22]) = Some (''id'', Some [], None)"
    by code_simp
  have m2: "match_first ''id=x'' = Some (''id'', None, Some ''x'')" by code_simp
  have pm: "parseMeta ?meta = Inr [''id'' \<mapsto> Some ''x'']"
    unfolding parseMeta_eq ma using m1 m2 by (simp add: set_property_def js_or_def)
  have cb: "codeBoxElement (Node ''code'' 0 ''let x'' ''js'' ?meta [] [] []) =
     Inr (Node ''mdxJsxFlowElement'' 0 [] [] [] ''CodeBox''
            [MdxJsxAttribute ''code'' (ExpressionValue ''let x''),
             MdxJsxAttribute ''language'' (StringValue ''js''),
             MdxJsxAttribute ''id'' (StringValue ''x'')] [])"
    unfolding codeBoxElement_def Let_def node.sel pm by (simp add: truthy_def)
  have ma3: "match_all (''__proto__='' @ [CHR 0x22, CHR 0x22]) = [''__proto__='' @ [CHR 0x22, CHR 0x22]]"
    by code_simp
  have m3: "match_first (''__proto__='' @ [CHR 0x22, CHR 0x22]) = Some (''__proto__'', Some [], None)"
    by code_simp
  have p3: "parseMeta (''__proto__='' @ [CHR 0x22, CHR 0x22]) = Inr Map.empty"
    unfolding parseMeta_eq ma3 using m3 by (simp add: set_property_def)
  from ma m1 pm cb ma3 m3 p3 show ?thesis by blast
qed

section \<open>The transform entry point: the metadata\<close>

lemma ensure_frame:
  "\<exists>a2 fm2. astro (data (ensure_frontmatter (ensure_astro file))) = Some a2 \<and> frontmatter a2 = Some fm2 \<and>
     data_other (data (ensure_frontmatter (ensure_astro file))) = data_other (data file) \<and>
     astro_other a2 = (case astro (data file) of None \<Rightarrow> Map.empty | Some a \<Rightarrow> astro_other a) \<and>
     fm2 = (case astro (data file) of None \<Rightarrow> Map.empty
            | Some a \<Rightarrow> (case frontmatter a of None \<Rightarrow> Map.empty | Some fm \<Rightarrow> fm))"
  by (auto simp: ensure_astro_def ensure_frontmatter_def split: option.splits)

lemma set_toc_frame:
  assumes "astro (data file2) = Some a2" "frontmatter a2 = Some fm2"
  shows "\<exists>a3. astro (data (set_toc file2 nested)) = Some a3 \<and>
     frontmatter a3 = Some (fm2(''toc'' \<mapsto> TocValue nested)) \<and>
     data_other (data (set_toc file2 nested)) = data_other (data file2) \<and>
     astro_other a3 = astro_other a2"
  using assms by (simp add: set_toc_def)

text \<open>
  C8. Whatever the metadata carrier holds, after the transform \<open>file.data.astro\<close> and
  its \<open>frontmatter\<close> exist; a container that was there keeps its other properties and
  one that was absent starts empty; every property of \<open>file.data\<close>, of \<open>astro\<close> and of
  the front matter other than \<open>toc\<close> is as before; and when the transform returns without
  throwing, \<open>frontmatter.toc\<close> is the nested table of contents of the records the
  traversal collected.
\<close>

theorem remarkSectionTransform_metadata_frame:
  "\<exists>a1 fm1.
     astro (data (out_file (remarkSectionTransform kebab tree file))) = Some a1 \<and>
     frontmatter a1 = Some fm1 \<and>
     data_other (data (out_file (remarkSectionTransform kebab tree file))) = data_other (data file) \<and>
     astro_other a1 = (case astro (data file) of None \<Rightarrow> Map.empty | Some a \<Rightarrow> astro_other a) \<and>
     (\<forall>k. k \<noteq> ''toc'' \<longrightarrow>
        fm1 k = (case astro (data file) of
                   None \<Rightarrow> None
                 | Some a \<Rightarrow> (case frontmatter a of None \<Rightarrow> None | Some fm \<Rightarrow> fm k))) \<and>
     (thrown (remarkSectionTransform kebab tree file) = None \<longrightarrow>
        (\<exists>tree1 eff nested.
           visit kebab tree no_effects = Inr (tree1, eff) \<and>
           nestHeadings (Some (toc eff)) = Inr nested \<and>
           fm1 ''toc'' = Some (TocValue nested)))"
proof -
  obtain a2 fm2 where e: "astro (data (ensure_frontmatter (ensure_astro file))) = Some a2"
    "frontmatter a2 = Some fm2"
    "data_other (data (ensure_frontmatter (ensure_astro file))) = data_other (data file)"
    "astro_other a2 = (case astro (data file) of None \<Rightarrow> Map.empty | Some a \<Rightarrow> astro_other a)"
    "fm2 = (case astro (data file) of None \<Rightarrow> Map.empty
            | Some a \<Rightarrow> (case frontmatter a of None \<Rightarrow> Map.empty | Some fm \<Rightarrow> fm))"
    using ensure_frame [of "file"] by blast
  have fm2: "fm2 k = (case astro (data file) of
                   None \<Rightarrow> None
                 | Some a \<Rightarrow> (case frontmatter a of None \<Rightarrow> None | Some fm \<Rightarrow> fm k))" for k
    unfolding e(5) by (simp split: option.splits)
  show ?thesis
  proof (cases "visit kebab tree no_effects")
    case (Inl err)
    then have "out_file (remarkSectionTransform kebab tree file) = ensure_frontmatter (ensure_astro file)"
      "thrown (remarkSectionTransform kebab tree file) = Some err"
      by (simp_all add: remarkSectionTransform_def Let_def no_effects_def)
    with e fm2 show ?thesis by simp
  next
    case (Inr r)
    obtain tree1 eff where r: "r = (tree1, eff)" by (cases r)
    show ?thesis
    proof (cases "nestHeadings (Some (toc eff))")
      case (Inl err)
      with Inr r have "out_file (remarkSectionTransform kebab tree file) = ensure_frontmatter (ensure_astro file)"
        "thrown (remarkSectionTransform kebab tree file) = Some err"
        by (simp_all add: remarkSectionTransform_def Let_def no_effects_def)
      with e fm2 show ?thesis by simp
    next
      case nested: (Inr nested)
      with Inr r have o: "out_file (remarkSectionTransform kebab tree file) =
          set_toc (ensure_frontmatter (ensure_astro file)) nested"
        by (simp_all add: remarkSectionTransform_def Let_def no_effects_def)
      from set_toc_frame [OF e(1) e(2), of nested] obtain a3 where
        a3: "astro (data (set_toc (ensure_frontmatter (ensure_astro file)) nested)) = Some a3"
          "frontmatter a3 = Some (fm2(''toc'' \<mapsto> TocValue nested))"
          "data_other (data (set_toc (ensure_frontmatter (ensure_astro file)) nested)) =
             data_other (data (ensure_frontmatter (ensure_astro file)))"
          "astro_other a3 = astro_other a2" by blast
      show ?thesis
        unfolding o using a3 e(3,4) fm2 Inr r nested
        by (intro exI [of _ a3] exI [of _ "fm2(''toc'' \<mapsto> TocValue nested)"]) simp
    qed
  qed
qed


theorem remarkSectionTransform_metadata_frame_witness:
  "\<exists>a1 fm1.
     astro (data (out_file (remarkSectionTransform kebabCase
        (root_node [heading_node 1 ''T'', heading_node 2 ''A'']) example_file))) = Some a1 \<and>
     frontmatter a1 = Some fm1 \<and>
     astro_other a1 = [''x'' \<mapsto> 2] \<and>
     fm1 ''title'' = Some (OtherValue 1) \<and>
     fm1 ''toc'' = Some (TocValue [TocNode \<lparr>title = ''A'', id' = ''a'', depth = 2\<rparr> []])"
proof -
  let ?doc = "root_node [heading_node 1 ''T'', heading_node 2 ''A'']"
  have t: "thrown (remarkSectionTransform kebabCase ?doc example_file) = None"
    by code_simp
  have n: "nestHeadings (Some (toc (snd (projr (visit kebabCase ?doc no_effects))))) =
      Inr [TocNode \<lparr>title = ''A'', id' = ''a'', depth = 2\<rparr> []]"
    by code_simp
  from remarkSectionTransform_metadata_frame [of kebabCase ?doc example_file] t
  obtain a1 fm1 tree1 eff nested where
    r: "astro (data (out_file (remarkSectionTransform kebabCase ?doc example_file))) = Some a1"
      "frontmatter a1 = Some fm1"
      "astro_other a1 = (case astro (data example_file) of None \<Rightarrow> Map.empty | Some a \<Rightarrow> astro_other a)"
      "\<forall>k. k \<noteq> ''toc'' \<longrightarrow>
        fm1 k = (case astro (data example_file) of
                   None \<Rightarrow> None
                 | Some a \<Rightarrow> (case frontmatter a of None \<Rightarrow> None | Some fm \<Rightarrow> fm k))"
      "visit kebabCase ?doc no_effects = Inr (tree1, eff)"
      "nestHeadings (Some (toc eff)) = Inr nested"
      "fm1 ''toc'' = Some (TocValue nested)"
    by auto
  from r(5,6) n have "nested = [TocNode \<lparr>title = ''A'', id' = ''a'', depth = 2\<rparr> []]" by simp
  moreover from r(4) have "fm1 ''title'' = Some (OtherValue 1)" by (simp add: example_file_def)
  moreover from r(3) have "astro_other a1 = [''x'' \<mapsto> 2]" by (simp add: example_file_def)
  ultimately show ?thesis using r(1,2,7) by blast
qed

section \<open>The traversal: one block for every heading\<close>

lemma heading_free_sections_flat:
  "(\<forall>c\<in>set xs. headings c = []) \<Longrightarrow> sections_flat b xs"
proof (induction b xs rule: sections_flat.induct)
  case (1 in_section)
  then show ?case by simp
next
  case (2 in_section ty d v l m n a cs rest)
  from "2.prems" have h: "ty \<noteq> ''heading''" "\<forall>c\<in>set cs. headings c = []" "\<forall>c\<in>set rest. headings c = []"
    by auto
  show ?case
  proof (cases "ty = ''export''")
    case True
    with h "2.IH"(2,3) show ?thesis by simp
  next
    case False
    with h "2.IH"(4,5,6) show ?thesis by (cases in_section) auto
  qed
qed

lemma concat_map_image:
  "(\<forall>c\<in>set xs. f c = map g (h c)) \<Longrightarrow> concat (map f xs) = map g (concat (map h xs))"
  by (induction xs) auto

lemma heading_free_outline:
  "headings c = [] \<Longrightarrow> outline kebab c = map block_label (blocks c)"
proof (induction c)
  case (Node ty d v l m n a cs)
  from Node.prems have h: "ty \<noteq> ''heading''" "\<forall>c\<in>set cs. headings c = []" by auto
  have "concat (map (outline kebab) cs) = map block_label (concat (map blocks cs))"
    using Node.IH h(2) by (intro concat_map_image) auto
  with h(1) show ?case by (simp add: block_label_def)
qed

lemma heading_free_outline_list:
  "(\<forall>c\<in>set xs. headings c = []) \<Longrightarrow>
   concat (map (outline kebab) xs) = map block_label (concat (map blocks xs))"
  by (intro concat_map_image) (auto simp: heading_free_outline)

lemma sections_flat_boundary:
  "isEnd c \<Longrightarrow> sections_flat True (c # r) = sections_flat False (c # r)"
  by (cases c) (auto simp: isEnd_def)

lemma sections_flat_span:
  "sections_flat True rest \<Longrightarrow>
     (\<forall>c\<in>set (takeWhile (Not \<circ> isEnd) rest). headings c = []) \<and>
     sections_flat False (dropWhile (Not \<circ> isEnd) rest)"
proof (induction rest)
  case Nil
  then show ?case by simp
next
  case (Cons c r)
  show ?case
  proof (cases "isEnd c")
    case True
    with Cons.prems sections_flat_boundary [OF True, of r] show ?thesis by simp
  next
    case False
    obtain ty d v l m n a cs where c: "c = Node ty d v l m n a cs" by (cases c)
    with False Cons.prems have "headings c = []" "sections_flat True r"
      by (auto simp: isEnd_def)
    with Cons.IH False show ?thesis by simp
  qed
qed

lemma transformed_Nil: "transformed kebab [] []"
  by (simp add: transformed_def)

lemma block_label_section_for:
  "block_label (section_for kebab h content) = block_label (section_for kebab h [])"
  by (simp add: block_label_def section_for_def)

lemma blocks_section_for:
  "blocks (section_for kebab h content) = section_for kebab h content # concat (map blocks content)"
  by (simp add: section_for_def)

lemma headings_section_for:
  "headings (section_for kebab h content) = concat (map headings content)"
  by (simp add: section_for_def)

lemma transformed_section:
  assumes x: "ntype x = ''heading''"
    and tw: "\<forall>c\<in>set tw. headings c = []"
    and ys: "transformed kebab dw ys"
  shows "transformed kebab (x # tw @ dw) (section_for kebab x tw # ys)"
proof -
  obtain ty d v l m n a cs where c: "x = Node ty d v l m n a cs" by (cases x)
  with x have o: "outline kebab x = [block_label (section_for kebab x [])]" by simp
  from tw have h: "concat (map headings tw) = []" by simp
  show ?thesis
    using ys o h heading_free_outline_list [OF tw, of kebab]
    unfolding transformed_def
    by (simp add: blocks_section_for headings_section_for block_label_section_for [of kebab x tw])
qed

lemma transformed_node:
  assumes x: "ntype x \<noteq> ''heading''"
    and gcs: "transformed kebab (children x) gcs"
    and ys: "transformed kebab rest ys"
  shows "transformed kebab (x # rest) (set_children x gcs # ys)"
proof -
  obtain ty d v l m n a cs where c: "x = Node ty d v l m n a cs" by (cases x)
  with x have ty: "ty \<noteq> ''heading''" by simp
  show ?thesis
    using gcs ys ty unfolding transformed_def c
    by (simp add: block_label_def)
qed

lemma take_drop_app:
  assumes "length pre = k"
  shows "take (Suc k) (pre @ b # r) = pre @ [b]" "drop (Suc k) (pre @ b # r) = r"
  using assms by auto

lemma visit_children_transformed:
  "offset \<le> length siblings \<Longrightarrow> sections_flat False (drop offset siblings) \<Longrightarrow>
   \<forall>h\<in>set (concat (map headings (drop offset siblings))). is_section_heading h \<Longrightarrow>
   \<exists>ys eff1. visit_children kebab siblings offset eff = Inr (take offset siblings @ ys, eff1) \<and>
      transformed kebab (drop offset siblings) ys \<and>
      toc eff1 = toc eff @ map (record_for kebab) (concat (map headings (drop offset siblings)))"
proof (induction kebab siblings offset eff rule: visit_children.induct)
  case (1 kebab siblings offset eff)
  show ?case
  proof (cases "offset < length siblings")
    case False
    then have "visit_children kebab siblings offset eff = Inr (siblings, eff)"
      by (subst visit_children.simps) simp
    moreover from False have "drop offset siblings = []" "take offset siblings = siblings"
      by simp_all
    ultimately show ?thesis by (simp add: transformed_Nil)
  next
    case lt: True
    let ?x = "siblings ! offset"
    let ?pre = "take offset siblings"
    let ?rest = "drop (Suc offset) siblings"
    have d: "drop offset siblings = ?x # ?rest" using lt by (simp add: Cons_nth_drop_Suc)
    have lp: "length ?pre = offset" using lt by simp
    obtain ty dp v l m n a cs where x: "?x = Node ty dp v l m n a cs" by (cases ?x)
    from "1.prems"(2) have flat: "sections_flat False (?x # ?rest)" by (simp only: d)
    from "1.prems"(3) have hs: "\<forall>h\<in>set (headings ?x @ concat (map headings ?rest)). is_section_heading h"
      unfolding d by simp
    show ?thesis
    proof (cases "is_section_heading ?x")
      case True
      then have ty: "ntype ?x = ''heading''" by (simp add: is_section_heading_def)
      let ?tw = "takeWhile (Not \<circ> isEnd) ?rest"
      let ?dw = "dropWhile (Not \<circ> isEnd) ?rest"
      let ?B = "section_for kebab ?x ?tw"
      let ?s1 = "?pre @ ?B # ?dw"
      let ?e1 = "effects_for kebab ?x eff"
      have s: "sectionizeToComponent kebab ?x offset siblings eff = Inr (?s1, ?e1)"
        by (rule sectionize_eq [OF True])
      from flat ty have inl: "\<forall>c\<in>set (children ?x). headings c = []"
        and fr: "sections_flat True ?rest"
        unfolding x by simp_all
      from sections_flat_span [OF fr] have tw: "\<forall>c\<in>set ?tw. headings c = []"
        and dwf: "sections_flat False ?dw" by simp_all
      have rest: "?rest = ?tw @ ?dw" by simp
      have htw: "concat (map headings ?tw) = []" using tw by simp
      have "concat (map headings (?tw @ ?dw)) = concat (map headings ?tw) @ concat (map headings ?dw)"
        by (simp only: map_append concat_append)
      then have hrest: "concat (map headings ?rest) = concat (map headings ?dw)"
        by (simp only: takeWhile_dropWhile_id htw append_Nil)
      have hx: "headings ?x = [?x]" using inl ty unfolding x by simp
      \<comment> \<open>the walk over the children of the heading\<close>
      have c0: "0 \<le> length (children ?x)" by simp
      have c1: "sections_flat False (drop 0 (children ?x))"
        using inl by (simp add: heading_free_sections_flat)
      have c2: "\<forall>h\<in>set (concat (map headings (drop 0 (children ?x)))). is_section_heading h"
        using inl by simp
      from "1.IH"(1) [OF lt refl True s refl c0 c1 c2]
      obtain ys1 e2 where v1: "visit_children kebab (children ?x) 0 ?e1 = Inr (ys1, e2)"
        and t2: "toc e2 = toc ?e1" using inl by auto
      \<comment> \<open>the walk over what follows the new block\<close>
      have r0: "offset + 1 \<le> length ?s1" using lp by simp
      have dr: "drop (offset + 1) ?s1 = ?dw" using take_drop_app(2) [OF lp] by simp
      have tk: "take (offset + 1) ?s1 = ?pre @ [?B]" using take_drop_app(1) [OF lp] by simp
      have r1: "sections_flat False (drop (offset + 1) ?s1)" using dwf by (simp only: dr)
      have r2: "\<forall>h\<in>set (concat (map headings (drop (offset + 1) ?s1))). is_section_heading h"
        using hs hrest by (simp only: dr) simp
      from "1.IH"(2) [OF lt refl True s refl v1 refl r0 r1 r2]
      obtain ys2 e3 where v2: "visit_children kebab ?s1 (offset + 1) e2 = Inr ((?pre @ [?B]) @ ys2, e3)"
        and tr2: "transformed kebab ?dw ys2"
        and t3: "toc e3 = toc e2 @ map (record_for kebab) (concat (map headings ?dw))"
        unfolding dr tk by blast
      from v2 have v2': "visit_children kebab ?s1 (Suc offset) e2 = Inr (?pre @ ?B # ys2, e3)"
        by simp
      have "visit_children kebab siblings offset eff = Inr (?pre @ (?B # ys2), e3)"
        by (subst visit_children.simps) (simp add: lt True s v1 v2' Let_def)
      moreover have "transformed kebab (drop offset siblings) (?B # ys2)"
        unfolding d using transformed_section [OF ty tw tr2] by (simp only: rest [symmetric])
      moreover have "toc e3 = toc eff @ map (record_for kebab) (concat (map headings (drop offset siblings)))"
        unfolding d t3 t2 using hx hrest by (simp add: effects_for_def)
      ultimately show ?thesis by blast
    next
      case False
      have ty: "ntype ?x \<noteq> ''heading''"
      proof
        assume "ntype ?x = ''heading''"
        then have "?x \<in> set (headings ?x)" unfolding x by simp
        with hs have "is_section_heading ?x" by simp
        with False show False by simp
      qed
      with flat have fc: "sections_flat False (children ?x)" and fr: "sections_flat False ?rest"
        unfolding x by (auto split: if_splits)
      have hx: "headings ?x = concat (map headings (children ?x))" using ty unfolding x by simp
      have c0: "0 \<le> length (children ?x)" by simp
      have c1: "sections_flat False (drop 0 (children ?x))" using fc by simp
      have c2: "\<forall>h\<in>set (concat (map headings (drop 0 (children ?x)))). is_section_heading h"
        using hs hx by simp
      from "1.IH"(3) [OF lt refl False c0 c1 c2]
      obtain gcs e1 where v1: "visit_children kebab (children ?x) 0 eff = Inr (gcs, e1)"
        and tr1: "transformed kebab (children ?x) gcs"
        and t1: "toc e1 = toc eff @ map (record_for kebab) (concat (map headings (children ?x)))"
        by auto
      let ?x1 = "set_children ?x gcs"
      let ?s1 = "siblings[offset := ?x1]"
      have s1: "?s1 = ?pre @ ?x1 # ?rest" using lt by (simp add: upd_conv_take_nth_drop)
      have r0: "offset + 1 \<le> length ?s1" using lt by simp
      have dr: "drop (offset + 1) ?s1 = ?rest" by simp
      have tk: "take (offset + 1) ?s1 = ?pre @ [?x1]"
        unfolding s1 using take_drop_app(1) [OF lp] by simp
      have r1: "sections_flat False (drop (offset + 1) ?s1)" using fr by (simp only: dr)
      have r2: "\<forall>h\<in>set (concat (map headings (drop (offset + 1) ?s1))). is_section_heading h"
        using hs by (simp only: dr) simp
      from "1.IH"(4) [OF lt refl False v1 refl r0 r1 r2]
      obtain ys2 e3 where v2: "visit_children kebab ?s1 (offset + 1) e1 = Inr ((?pre @ [?x1]) @ ys2, e3)"
        and tr2: "transformed kebab ?rest ys2"
        and t3: "toc e3 = toc e1 @ map (record_for kebab) (concat (map headings ?rest))"
        unfolding dr tk by blast
      from v2 have v2': "visit_children kebab ?s1 (Suc offset) e1 = Inr (?pre @ ?x1 # ys2, e3)"
        by simp
      have "visit_children kebab siblings offset eff = Inr (?pre @ (?x1 # ys2), e3)"
        by (subst visit_children.simps) (simp add: lt False v1 v2' Let_def)
      moreover have "transformed kebab (drop offset siblings) (?x1 # ys2)"
        unfolding d by (rule transformed_node [OF ty tr1 tr2])
      moreover have "toc e3 = toc eff @ map (record_for kebab) (concat (map headings (drop offset siblings)))"
        unfolding d t3 t1 using hx by simp
      ultimately show ?thesis by blast
    qed
  qed
qed

lemma heading_free_kept_blocks: "headings c = [] \<Longrightarrow> kept_blocks c = blocks c"
proof (induction c)
  case (Node ty d v l m n a cs)
  from Node.prems have h: "ty \<noteq> ''heading''" "\<forall>c\<in>set cs. headings c = []" by auto
  have m: "map kept_blocks cs = map blocks cs"
    using Node.IH h(2) by (intro map_cong) auto
  have "concat (map kept_blocks cs) = concat (map blocks cs)" by (simp only: m)
  with h(1) show ?case by simp
qed

lemma outline_count:
  "sections_flat b xs \<Longrightarrow>
   length (concat (map (outline kebab) xs)) =
     length (concat (map headings xs)) + length (concat (map kept_blocks xs))"
proof (induction b xs rule: sections_flat.induct)
  case (1 in_section)
  then show ?case by simp
next
  case (2 in_section ty d v l m n a cs rest)
  let ?N = "Node ty d v l m n a cs"
  show ?case
  proof (cases "ty = ''heading''")
    case True
    with "2.prems" have inl: "\<forall>c\<in>set cs. headings c = []"
      and fr: "sections_flat True rest" by simp_all
    from inl have "concat (map headings cs) = []" by simp
    with True "2.IH"(1) [OF True fr] show ?thesis by simp
  next
    case nh: False
    show ?thesis
    proof (cases "ty = ''export''")
      case True
      with nh "2.prems" have "sections_flat False cs" "sections_flat False rest" by simp_all
      with "2.IH"(2,3) [OF nh True] nh True show ?thesis by simp
    next
      case ne: False
      show ?thesis
      proof (cases in_section)
        case True
        with nh ne "2.prems" have hf: "headings ?N = []" and fr: "sections_flat True rest" by simp_all
        from heading_free_outline [OF hf, of kebab] heading_free_kept_blocks [OF hf]
        have "length (outline kebab ?N) = length (kept_blocks ?N)" by simp
        with hf "2.IH"(4) [OF nh ne True fr] show ?thesis
          by (simp del: outline.simps blocks.simps headings.simps kept_blocks.simps)
      next
        case False
        with nh ne "2.prems" have "sections_flat False cs" "sections_flat False rest" by simp_all
        with "2.IH"(5,6) [OF nh ne False] nh show ?thesis by simp
      qed
    qed
  qed
qed

lemma outline_of_headings:
  "sections_flat b xs \<Longrightarrow> concat (map kept_blocks xs) = [] \<Longrightarrow>
   concat (map (outline kebab) xs) =
     map (\<lambda>h. block_label (section_for kebab h [])) (concat (map headings xs))"
proof (induction b xs rule: sections_flat.induct)
  case (1 in_section)
  then show ?case by simp
next
  case (2 in_section ty d v l m n a cs rest)
  let ?N = "Node ty d v l m n a cs"
  from "2.prems"(2) have bN: "kept_blocks ?N = []" and br: "concat (map kept_blocks rest) = []"
    by simp_all
  show ?case
  proof (cases "ty = ''heading''")
    case True
    with "2.prems" have inl: "\<forall>c\<in>set cs. headings c = []"
      and fr: "sections_flat True rest" by simp_all
    from inl have "concat (map headings cs) = []" by simp
    with True "2.IH"(1) [OF True fr br] show ?thesis by simp
  next
    case nh: False
    from bN nh have nb: "ty \<noteq> ''mdxJsxFlowElement''" and bc: "concat (map kept_blocks cs) = []"
      by (auto split: if_splits)
    show ?thesis
    proof (cases "ty = ''export''")
      case True
      with nh "2.prems" have "sections_flat False cs" "sections_flat False rest" by simp_all
      with "2.IH"(2,3) [OF nh True] nh nb bc br show ?thesis by simp
    next
      case ne: False
      show ?thesis
      proof (cases in_section)
        case True
        with nh ne "2.prems" have hf: "headings ?N = []" and fr: "sections_flat True rest" by simp_all
        from heading_free_outline [OF hf, of kebab] heading_free_kept_blocks [OF hf] bN
        have "outline kebab ?N = []" by simp
        with hf "2.IH"(4) [OF nh ne True fr br] show ?thesis
          by (simp del: outline.simps blocks.simps headings.simps kept_blocks.simps)
      next
        case False
        with nh ne "2.prems" have "sections_flat False cs" "sections_flat False rest" by simp_all
        with "2.IH"(5,6) [OF nh ne False] nh nb bc br show ?thesis by simp
      qed
    qed
  qed
qed

lemma headings_are_headings: "h \<in> set (headings t) \<Longrightarrow> ntype h = ''heading''"
  by (induction t) (auto split: if_splits)

text \<open>
  C1 (amended). For every document tree (the root not itself a heading) whose heading
  nodes all have depth in [1,4], and in which no heading lies inside another heading or
  inside a node that a heading absorbs: the traversal returns, with the tree the
  transform leaves behind; the structured block nodes of that tree are, in document
  order, those the document had outside its headings and one for every heading, each in
  the place of its heading, so that there are as many new ones as headings; no heading
  is left; and the ToC accumulator holds the records of the headings in document order.
\<close>

theorem one_block_per_heading:
  assumes "ntype root \<noteq> ''heading''"
    and "\<forall>h\<in>set (headings root). 1 \<le> ndepth h \<and> ndepth h \<le> 4"
    and "sections_flat False (children root)"
  shows "\<exists>out eff.
           visit kebab root no_effects = Inr (out, eff) \<and>
           out_tree (remarkSectionTransform kebab root vf) = out \<and>
           map block_label (blocks out) = outline kebab root \<and>
           length (blocks out) = length (kept_blocks root) + length (headings root) \<and>
           headings out = [] \<and>
           toc eff = map (record_for kebab) (headings root) \<and>
           (kept_blocks root = [] \<longrightarrow>
              map block_label (blocks out) =
                map (\<lambda>h. block_label (section_for kebab h [])) (headings root))"
proof -
  obtain ty d v l m n a cs where r: "root = Node ty d v l m n a cs" by (cases root)
  with assms(1) have ty: "ty \<noteq> ''heading''" by simp
  have nsh: "\<not> is_section_heading root" using assms(1) by (simp add: is_section_heading_def)
  have hr: "headings root = concat (map headings cs)" using ty r by simp
  have c0: "0 \<le> length cs" by simp
  have c1: "sections_flat False (drop 0 cs)" using assms(3) r by simp
  have c2: "\<forall>h\<in>set (concat (map headings (drop 0 cs))). is_section_heading h"
  proof
    fix h assume "h \<in> set (concat (map headings (drop 0 cs)))"
    then have h: "h \<in> set (headings root)" using hr by simp
    with assms(2) headings_are_headings [OF h] show "is_section_heading h"
      by (simp add: is_section_heading_def)
  qed
  from visit_children_transformed [OF c0 c1 c2, of kebab no_effects]
  obtain ys eff where v: "visit_children kebab cs 0 no_effects = Inr (ys, eff)"
    and tr: "transformed kebab cs ys"
    and tc: "toc eff = map (record_for kebab) (concat (map headings cs))"
    by (auto simp: no_effects_def)
  let ?out = "Node ty d v l m n a ys"
  have vis: "visit kebab root no_effects = Inr (?out, eff)"
    using nsh v r by (simp add: visit_def)
  have "transformed kebab [root] [set_children root ys]"
    using transformed_node [OF assms(1), of kebab ys "[]" "[]"] tr r by (simp add: transformed_Nil)
  then have lab: "map block_label (blocks ?out) = outline kebab root"
    and nh: "headings ?out = []"
    unfolding transformed_def r by simp_all
  have fl: "sections_flat False [root]" using assms(3) ty r by simp
  have cnt: "length (outline kebab root) = length (headings root) + length (kept_blocks root)"
    using outline_count [OF fl, of kebab] by simp
  have "length (blocks ?out) = length (map block_label (blocks ?out))" by simp
  also have "\<dots> = length (kept_blocks root) + length (headings root)"
    unfolding lab cnt by simp
  finally have len: "length (blocks ?out) = length (kept_blocks root) + length (headings root)" .
  have nb: "map block_label (blocks ?out) =
      map (\<lambda>h. block_label (section_for kebab h [])) (headings root)" if "kept_blocks root = []"
    unfolding lab using outline_of_headings [OF fl, of kebab] that by simp
  have ot: "out_tree (remarkSectionTransform kebab root vf) = ?out"
    using vis by (simp add: remarkSectionTransform_def no_effects_def Let_def split: sum.splits)
  from vis ot lab len nh tc hr nb show ?thesis by (intro exI [of _ ?out] exI [of _ eff]) simp
qed

theorem one_block_per_heading_witness:
  "\<exists>out eff.
     visit kebabCase
       (root_node [blockquote_node [heading_node 3 ''Quoted'', paragraph_node ''x''],
                   Node ''mdxJsxFlowElement'' 0 [] [] [] ''Callout'' [] [paragraph_node ''c''],
                   Node ''heading'' 1 [] [] [] [] []
                     [text_node ''Title'', Node ''mdxJsxFlowElement'' 0 [] [] [] ''Icon'' [] []],
                   paragraph_node ''p'',
                   heading_node 2 ''Part One (#one)'', paragraph_node ''q''])
       no_effects = Inr (out, eff) \<and>
     map block_label (blocks out) =
       [(''SubSubSection'', [MdxJsxAttribute ''title'' (StringValue ''Quoted''),
                            MdxJsxAttribute ''id'' (StringValue ''quoted'')]),
        (''Callout'', []),
        (''Section'', [MdxJsxAttribute ''title'' (StringValue ''Title''),
                      MdxJsxAttribute ''id'' (StringValue ''title'')]),
        (''SubSection'', [MdxJsxAttribute ''title'' (StringValue ''Part One''),
                         MdxJsxAttribute ''id'' (StringValue ''one'')])] \<and>
     length (blocks out) = 1 + 3 \<and>
     headings out = []"
proof -
  let ?doc = "root_node [blockquote_node [heading_node 3 ''Quoted'', paragraph_node ''x''],
                   Node ''mdxJsxFlowElement'' 0 [] [] [] ''Callout'' [] [paragraph_node ''c''],
                   Node ''heading'' 1 [] [] [] [] []
                     [text_node ''Title'', Node ''mdxJsxFlowElement'' 0 [] [] [] ''Icon'' [] []],
                   paragraph_node ''p'',
                   heading_node 2 ''Part One (#one)'', paragraph_node ''q'']"
  have a: "ntype ?doc \<noteq> ''heading''" by (simp add: root_node_def)
  have b: "\<forall>h\<in>set (headings ?doc). 1 \<le> ndepth h \<and> ndepth h \<le> 4" by code_simp
  have c: "sections_flat False (children ?doc)" by code_simp
  have o: "outline kebabCase ?doc =
       [(''SubSubSection'', [MdxJsxAttribute ''title'' (StringValue ''Quoted''),
                            MdxJsxAttribute ''id'' (StringValue ''quoted'')]),
        (''Callout'', []),
        (''Section'', [MdxJsxAttribute ''title'' (StringValue ''Title''),
                      MdxJsxAttribute ''id'' (StringValue ''title'')]),
        (''SubSection'', [MdxJsxAttribute ''title'' (StringValue ''Part One''),
                         MdxJsxAttribute ''id'' (StringValue ''one'')])]"
    by code_simp
  have n: "length (kept_blocks ?doc) = 1" "length (headings ?doc) = 3" by code_simp+
  from one_block_per_heading [OF a b c, where kebab = kebabCase and vf = example_file] o n
  show ?thesis by auto
qed

text \<open>
  C1 as stated fails on a heading inside a block quote that follows a heading: the block
  quote is absorbed into the section of the first heading and the traversal goes on
  after the new block, so the second heading stays a heading. Both headings have a depth
  in [1,4]; the result holds one structured block node.
\<close>

theorem one_block_per_heading_counterexample:
  "list_all (\<lambda>h. 1 \<le> ndepth h \<and> ndepth h \<le> 4)
     (headings (root_node [heading_node 1 ''Title'', blockquote_node [heading_node 2 ''Quoted'']])) \<and>
   length (headings (root_node [heading_node 1 ''Title'', blockquote_node [heading_node 2 ''Quoted'']])) = 2 \<and>
   visit kebabCase (root_node [heading_node 1 ''Title'', blockquote_node [heading_node 2 ''Quoted'']])
     no_effects =
     Inr (root_node
            [Node ''mdxJsxFlowElement'' 0 [] [] [] ''Section''
               [MdxJsxAttribute ''title'' (StringValue ''Title''),
                MdxJsxAttribute ''id'' (StringValue ''title'')]
               [blockquote_node [heading_node 2 ''Quoted'']]],
          \<lparr>toc = [\<lparr>title = ''Title'', id' = ''title'', depth = 1\<rparr>],
           console = [warning_message ''Title'' ''title'']\<rparr>) \<and>
   length (blocks (root_node
            [Node ''mdxJsxFlowElement'' 0 [] [] [] ''Section''
               [MdxJsxAttribute ''title'' (StringValue ''Title''),
                MdxJsxAttribute ''id'' (StringValue ''title'')]
               [blockquote_node [heading_node 2 ''Quoted'']]])) = 1"
  by code_simp

text \<open>
  A heading inside a heading: the traversal goes on through the children of the heading
  it has just replaced, so the inner heading gets its ToC record; the tree holds the
  block of the outer heading only. Two headings, one structured block node.
\<close>

lemma heading_inside_heading:
  "length (headings (root_node [Node ''heading'' 1 [] [] [] [] []
                                 [text_node ''A'', heading_node 2 ''B'']])) = 2 \<and>
   visit kebabCase (root_node [Node ''heading'' 1 [] [] [] [] []
                                [text_node ''A'', heading_node 2 ''B'']]) no_effects =
     Inr (root_node
            [Node ''mdxJsxFlowElement'' 0 [] [] [] ''Section''
               [MdxJsxAttribute ''title'' (StringValue ''A''),
                MdxJsxAttribute ''id'' (StringValue ''a'')] []],
          \<lparr>toc = [\<lparr>title = ''A'', id' = ''a'', depth = 1\<rparr>,
                  \<lparr>title = ''B'', id' = ''b'', depth = 2\<rparr>],
           console = [warning_message ''A'' ''a'']\<rparr>)"
  by code_simp


end

